theory Spec2Isabelle
  imports Main "HOL-Library.Word" "HOL-Library.Sublist"
begin

section \<open>Data\<close>

text \<open>
  The C++ type \<open>int\<close> is a 32-bit word read in two's complement (\<open>sint\<close>, \<open><s\<close>);
  \<open>slots++\<close> and \<open>slots--\<close> are the word operations, so an increment at
  \<open>2^31 - 1\<close> wraps to \<open>- 2^31\<close>, as the compiled increment does.
\<close>

type_synonym cint = "32 word"

text \<open>\<open>struct Car\<close> (lines 27-32).\<close>

record Car =
  carName :: string
  carId :: cint

text \<open>The only exception the program throws itself: \<open>std::invalid_argument\<close> (line 44).\<close>

datatype error = invalid_argument

section \<open>Semaphore (lines 35-65)\<close>

text \<open>
  The members \<open>mtx\<close> and \<open>cv\<close> are not state of the model: every member function
  holds \<open>mtx\<close> for its whole body, so each call below is one atomic step, and
  \<open>cv.wait(lock, pred)\<close> is \<open>while (!pred()) wait(lock)\<close>: the caller goes on
  only from an evaluation of \<open>slots > 0\<close> that is true, made with \<open>mtx\<close> held.
\<close>

record Semaphore =
  slots :: cint

text \<open>The constructor (lines 42-46): throws when \<open>initialSlots < 0\<close>.\<close>

definition Semaphore_new :: "cint \<Rightarrow> error + Semaphore" where
  "Semaphore_new initialSlots =
     (if initialSlots <s 0 then Inl invalid_argument else Inr \<lparr>slots = initialSlots\<rparr>)"

text \<open>
  \<open>acquire\<close> (lines 48-53), one evaluation of the wait predicate: \<open>Some\<close> is the
  semaphore after \<open>slots--\<close>, returned to the caller; \<open>None\<close> means the predicate is
  false and the caller stays in \<open>cv.wait\<close>, to evaluate it again after the next wake-up.
\<close>

definition acquire :: "Semaphore \<Rightarrow> Semaphore option" where
  "acquire s = (if 0 <s slots s then Some (s\<lparr>slots := slots s - 1\<rparr>) else None)"

text \<open>\<open>release\<close> (lines 55-59): \<open>slots++\<close>, then \<open>notify_one\<close>.\<close>

definition release :: "Semaphore \<Rightarrow> Semaphore" where
  "release s = s\<lparr>slots := slots s + 1\<rparr>"

text \<open>\<open>availablePermits\<close> (lines 61-64): the value read and the semaphore after the call.\<close>

definition availablePermits :: "Semaphore \<Rightarrow> cint \<times> Semaphore" where
  "availablePermits s = (slots s, s)"

text \<open>
  A sequence of calls on one semaphore, in the order in which they take \<open>mtx\<close>. An
  \<open>acquire\<close> whose predicate is false leaves the semaphore as it is (its caller waits).
\<close>

datatype sem_call = AcquireCall | ReleaseCall

fun sem_apply :: "sem_call \<Rightarrow> Semaphore \<Rightarrow> Semaphore" where
  "sem_apply AcquireCall s = (case acquire s of None \<Rightarrow> s | Some s' \<Rightarrow> s')"
| "sem_apply ReleaseCall s = release s"

fun sem_run :: "sem_call list \<Rightarrow> Semaphore \<Rightarrow> Semaphore" where
  "sem_run [] s = s"
| "sem_run (c # cs) s = sem_run cs (sem_apply c s)"

text \<open>\<open>INT_MAX\<close>, and the sequences of calls in which no \<open>release\<close> starts from it.\<close>

definition INT_MAX :: cint where
  "INT_MAX = 2147483647"

fun below_max :: "sem_call list \<Rightarrow> Semaphore \<Rightarrow> bool" where
  "below_max [] s = True"
| "below_max (c # cs) s =
     ((c = AcquireCall \<or> slots s \<noteq> INT_MAX) \<and> below_max cs (sem_apply c s))"

section \<open>SharedQueue (lines 68-125)\<close>

record SharedQueue =
  queue :: "Car list"
  empty :: Semaphore
  full :: Semaphore
  mutex :: Semaphore

text \<open>
  The constructor (lines 76-77) initialises \<open>empty(capacity)\<close>, \<open>full(0)\<close>, \<open>mutex(1)\<close>
  in the order of declaration; an exception of a member's constructor leaves it.
\<close>

definition SharedQueue_new :: "cint \<Rightarrow> error + SharedQueue" where
  "SharedQueue_new capacity =
     (case Semaphore_new capacity of
        Inl e \<Rightarrow> Inl e
      | Inr em \<Rightarrow>
          (case Semaphore_new 0 of
             Inl e \<Rightarrow> Inl e
           | Inr fu \<Rightarrow>
               (case Semaphore_new 1 of
                  Inl e \<Rightarrow> Inl e
                | Inr mu \<Rightarrow> Inr \<lparr>queue = [], empty = em, full = fu, mutex = mu\<rparr>)))"

text \<open>\<open>getWaitingCarCount\<close> (lines 121-124): the value returned and the queue after the call.\<close>

definition getWaitingCarCount :: "SharedQueue \<Rightarrow> cint \<times> SharedQueue" where
  "getWaitingCarCount q =
     (case availablePermits (full q) of (n, fu) \<Rightarrow> (n, q\<lparr>full := fu\<rparr>))"

section \<open>Threads\<close>

text \<open>
  What the threads do to the shared objects and to standard output. A message stands for
  the line that \<open>safe_print\<close> writes from the fields it carries; the number is
  \<open>queue.size()\<close>.
\<close>

datatype sem_id = EmptySem | FullSem | MutexSem | PumpsSem

datatype message =
    Arrived string
  | EnteredQueue string nat
  | TakenFromQueue cint string nat
  | BeginsService cint string
  | FinishesService cint string
  | BayFree cint
  | Interrupted cint

datatype action =
    Acquire sem_id
  | Release sem_id
  | Push Car
  | Pop Car
  | Print message
  | Sleep




text \<open>
  A program counter names the statement a thread executes next and carries the
  arguments and locals that are live there:
  \<^item> \<open>CarArrive\<close>: \<open>car_routine\<close>, line 157;
  \<^item> \<open>Add...\<close>: \<open>addCar\<close>, lines 81, 84, 87-88, 92, 95;
  \<^item> \<open>Rem...\<close>: \<open>removeCar\<close>, lines 100, 103, 106-109, 113, 116-118;
  \<^item> \<open>Pump...\<close>: \<open>pump_routine\<close>, lines 137, 139, 142, 144-145, 148, 151;
  \<^item> \<open>Finished\<close>: the thread's function has returned;
  \<^item> \<open>Fault\<close>: \<open>queue.front()\<close> was called on an empty \<open>std::queue\<close>
    (undefined behaviour).
\<close>

datatype pc =
    CarArrive string cint
  | AddAcqEmpty Car
  | AddAcqMutex Car
  | AddCritical Car
  | AddRelMutex Car
  | AddRelFull Car
  | RemAcqFull cint
  | RemAcqMutex cint
  | RemCritical cint
  | RemRelMutex cint Car
  | RemRelEmpty cint Car
  | PumpAcquire cint Car
  | PumpBegin cint Car
  | PumpSleep cint Car
  | PumpFinish cint Car
  | PumpRelease cint
  | PumpCatch cint
  | Finished
  | Fault

text \<open>
  The function a thread runs: \<open>car_routine\<close> and \<open>pump_routine\<close> of the source, and
  \<open>client\<close>, a caller that makes the calls of a list on the queue, one after the other.
\<close>

datatype routine = car_routine | pump_routine | client

datatype call = AddCar Car | RemoveCar cint

record thread =
  routine :: routine
  pc :: pc
  todo :: "call list"
  returned :: "Car list"

text \<open>\<open>car_routine(name, id, queue)\<close> and \<open>pump_routine(pumpId, queue, pumps)\<close> at their start.\<close>

definition car_thread :: "string \<Rightarrow> cint \<Rightarrow> thread" where
  "car_thread name ident =
     \<lparr>routine = car_routine, pc = CarArrive name ident, todo = [], returned = []\<rparr>"

definition pump_thread :: "cint \<Rightarrow> thread" where
  "pump_thread pumpId =
     \<lparr>routine = pump_routine, pc = RemAcqFull pumpId, todo = [], returned = []\<rparr>"

fun first_call :: "call list \<Rightarrow> pc" where
  "first_call [] = Finished"
| "first_call (AddCar c # cs) = AddAcqEmpty c"
| "first_call (RemoveCar pumpId # cs) = RemAcqFull pumpId"

definition client_thread :: "call list \<Rightarrow> thread" where
  "client_thread cs =
     \<lparr>routine = client, pc = first_call cs, todo = tl cs, returned = []\<rparr>"

section \<open>The station\<close>

text \<open>
  The objects of \<open>main\<close> (lines 180-181) that the threads share, the threads, and the
  trace: who did what, in the order in which it happened.
\<close>

record station =
  sq :: SharedQueue
  pumps :: Semaphore
  threads :: "thread list"
  trace :: "(nat \<times> action) list"

definition station_new :: "cint \<Rightarrow> cint \<Rightarrow> thread list \<Rightarrow> error + station" where
  "station_new queueSize pumpCount ths =
     (case Semaphore_new pumpCount of
        Inl e \<Rightarrow> Inl e
      | Inr p \<Rightarrow>
          (case SharedQueue_new queueSize of
             Inl e \<Rightarrow> Inl e
           | Inr q \<Rightarrow> Inr \<lparr>sq = q, pumps = p, threads = ths, trace = []\<rparr>))"

text \<open>The test of the drain loop of \<open>main\<close> (lines 209-212).\<close>

definition drained :: "cint \<Rightarrow> station \<Rightarrow> bool" where
  "drained pumpCount s =
     (let waiting = fst (getWaitingCarCount (sq s));
          freePumps = fst (availablePermits (pumps s))
      in waiting = 0 \<and> freePumps = pumpCount)"

definition goto :: "nat \<Rightarrow> pc \<Rightarrow> station \<Rightarrow> station" where
  "goto t p s = s\<lparr>threads := (threads s)[t := (threads s ! t)\<lparr>pc := p\<rparr>]\<rparr>"

definition emit :: "nat \<Rightarrow> action list \<Rightarrow> station \<Rightarrow> station" where
  "emit t as s = s\<lparr>trace := trace s @ map (Pair t) as\<rparr>"

text \<open>A \<open>client\<close> goes on with its next call; \<open>car_routine\<close> has none and returns.\<close>

definition next_call :: "nat \<Rightarrow> station \<Rightarrow> station" where
  "next_call t s =
     (let th = threads s ! t
      in s\<lparr>threads := (threads s)[t := th\<lparr>pc := first_call (todo th), todo := tl (todo th)\<rparr>]\<rparr>)"

text \<open>\<open>removeCar\<close> returns \<open>car\<close> (line 118) to \<open>pump_routine\<close> (line 134) or to a client.\<close>

definition return_car :: "nat \<Rightarrow> cint \<Rightarrow> Car \<Rightarrow> station \<Rightarrow> station" where
  "return_car t pumpId car s =
     (let th = threads s ! t;
          s' = s\<lparr>threads := (threads s)[t := th\<lparr>returned := returned th @ [car]\<rparr>]\<rparr>
      in if routine th = pump_routine then goto t (PumpAcquire pumpId car) s'
         else next_call t s')"

text \<open>One statement of thread \<open>t\<close>, which is at \<open>pc\<close>. A thread that waits does not move.\<close>

fun step_at :: "nat \<Rightarrow> pc \<Rightarrow> station \<Rightarrow> station" where
  "step_at t (CarArrive name ident) s =
     goto t (AddAcqEmpty \<lparr>carName = name, carId = ident\<rparr>) (emit t [Print (Arrived name)] s)"
| "step_at t (AddAcqEmpty car) s =
     (case acquire (empty (sq s)) of
        None \<Rightarrow> s
      | Some e \<Rightarrow> goto t (AddAcqMutex car)
                   (emit t [Acquire EmptySem] (s\<lparr>sq := (sq s)\<lparr>empty := e\<rparr>\<rparr>)))"
| "step_at t (AddAcqMutex car) s =
     (case acquire (mutex (sq s)) of
        None \<Rightarrow> s
      | Some m \<Rightarrow> goto t (AddCritical car)
                   (emit t [Acquire MutexSem] (s\<lparr>sq := (sq s)\<lparr>mutex := m\<rparr>\<rparr>)))"
| "step_at t (AddCritical car) s =
     (let q = queue (sq s) @ [car]
      in goto t (AddRelMutex car)
           (emit t [Push car, Print (EnteredQueue (carName car) (length q))]
              (s\<lparr>sq := (sq s)\<lparr>queue := q\<rparr>\<rparr>)))"
| "step_at t (AddRelMutex car) s =
     goto t (AddRelFull car)
       (emit t [Release MutexSem] (s\<lparr>sq := (sq s)\<lparr>mutex := release (mutex (sq s))\<rparr>\<rparr>))"
| "step_at t (AddRelFull car) s =
     next_call t
       (emit t [Release FullSem] (s\<lparr>sq := (sq s)\<lparr>full := release (full (sq s))\<rparr>\<rparr>))"
| "step_at t (RemAcqFull pumpId) s =
     (case acquire (full (sq s)) of
        None \<Rightarrow> s
      | Some f \<Rightarrow> goto t (RemAcqMutex pumpId)
                   (emit t [Acquire FullSem] (s\<lparr>sq := (sq s)\<lparr>full := f\<rparr>\<rparr>)))"
| "step_at t (RemAcqMutex pumpId) s =
     (case acquire (mutex (sq s)) of
        None \<Rightarrow> s
      | Some m \<Rightarrow> goto t (RemCritical pumpId)
                   (emit t [Acquire MutexSem] (s\<lparr>sq := (sq s)\<lparr>mutex := m\<rparr>\<rparr>)))"
| "step_at t (RemCritical pumpId) s =
     (case queue (sq s) of
        [] \<Rightarrow> goto t Fault s
      | car # q \<Rightarrow>
          goto t (RemRelMutex pumpId car)
            (emit t [Pop car, Print (TakenFromQueue pumpId (carName car) (length q))]
               (s\<lparr>sq := (sq s)\<lparr>queue := q\<rparr>\<rparr>)))"
| "step_at t (RemRelMutex pumpId car) s =
     goto t (RemRelEmpty pumpId car)
       (emit t [Release MutexSem] (s\<lparr>sq := (sq s)\<lparr>mutex := release (mutex (sq s))\<rparr>\<rparr>))"
| "step_at t (RemRelEmpty pumpId car) s =
     return_car t pumpId car
       (emit t [Release EmptySem] (s\<lparr>sq := (sq s)\<lparr>empty := release (empty (sq s))\<rparr>\<rparr>))"
| "step_at t (PumpAcquire pumpId car) s =
     (case acquire (pumps s) of
        None \<Rightarrow> s
      | Some p \<Rightarrow> goto t (PumpBegin pumpId car) (emit t [Acquire PumpsSem] (s\<lparr>pumps := p\<rparr>)))"
| "step_at t (PumpBegin pumpId car) s =
     goto t (PumpSleep pumpId car) (emit t [Print (BeginsService pumpId (carName car))] s)"
| "step_at t (PumpSleep pumpId car) s =
     goto t (PumpFinish pumpId car) (emit t [Sleep] s)"
| "step_at t (PumpFinish pumpId car) s =
     goto t (PumpRelease pumpId)
       (emit t [Print (FinishesService pumpId (carName car)), Print (BayFree pumpId)] s)"
| "step_at t (PumpRelease pumpId) s =
     goto t (RemAcqFull pumpId) (emit t [Release PumpsSem] (s\<lparr>pumps := release (pumps s)\<rparr>))"
| "step_at t (PumpCatch pumpId) s =
     goto t Finished (emit t [Print (Interrupted pumpId)] s)"
| "step_at t Finished s = s"
| "step_at t Fault s = s"

text \<open>
  The \<open>try\<close> block of \<open>pump_routine\<close> (lines 129-150) encloses the whole loop: the call
  of \<open>removeCar\<close> (line 134), \<open>pumps.acquire()\<close> (137), the service (139-145) and
  \<open>pumps.release()\<close> (148). An exception raised by any of these statements, the
  statements of \<open>removeCar\<close> included, is caught by \<open>catch (...)\<close> (line 150), outside
  the loop. \<open>try_pc\<close> gives the \<open>pumpId\<close> of the statements in the block; an exception
  of a thread is caught when the thread runs \<open>pump_routine\<close> and is at one of them.
  (An exception in \<open>car_routine\<close>, which has no handler, or in the handler itself is
  not caught: \<open>std::terminate\<close> ends the process, and there is no step for it.)
\<close>

fun try_pc :: "pc \<Rightarrow> cint option" where
  "try_pc (RemAcqFull pumpId) = Some pumpId"
| "try_pc (RemAcqMutex pumpId) = Some pumpId"
| "try_pc (RemCritical pumpId) = Some pumpId"
| "try_pc (RemRelMutex pumpId car) = Some pumpId"
| "try_pc (RemRelEmpty pumpId car) = Some pumpId"
| "try_pc (PumpAcquire pumpId car) = Some pumpId"
| "try_pc (PumpBegin pumpId car) = Some pumpId"
| "try_pc (PumpSleep pumpId car) = Some pumpId"
| "try_pc (PumpFinish pumpId car) = Some pumpId"
| "try_pc (PumpRelease pumpId) = Some pumpId"
| "try_pc _ = None"

definition caught :: "thread \<Rightarrow> bool" where
  "caught th = (routine th = pump_routine \<and> try_pc (pc th) \<noteq> None)"

text \<open>
  The scheduler picks the thread that makes the next step. \<open>Raise t\<close> is the step of
  thread \<open>t\<close> in which the statement it is at ends with an exception instead of its
  effect: when the exception is caught, control goes to the handler, and whatever the
  thread held (a slot of the queue, \<open>mutex\<close>, a bay) stays taken. An exception after the
  pop, in the \<open>safe_print\<close> of line 109, is a \<open>Raise\<close> at the next statement.
\<close>

datatype sched = Run nat | Raise nat

definition raise_at :: "nat \<Rightarrow> pc \<Rightarrow> station \<Rightarrow> station" where
  "raise_at t p s =
     (if routine (threads s ! t) = pump_routine
      then (case try_pc p of None \<Rightarrow> s | Some pumpId \<Rightarrow> goto t (PumpCatch pumpId) s)
      else s)"

fun fire :: "sched \<Rightarrow> station \<Rightarrow> station" where
  "fire (Run t) s = (if t < length (threads s) then step_at t (pc (threads s ! t)) s else s)"
| "fire (Raise t) s = (if t < length (threads s) then raise_at t (pc (threads s ! t)) s else s)"

fun exec :: "sched list \<Rightarrow> station \<Rightarrow> station" where
  "exec [] s = s"
| "exec (e # es) s = exec es (fire e s)"

text \<open>
  The number of exceptions, in a schedule run from \<open>s\<close>, that were caught and took a
  thread away from a statement that satisfies \<open>P\<close>.
\<close>

fun lost :: "(pc \<Rightarrow> bool) \<Rightarrow> sched list \<Rightarrow> station \<Rightarrow> int" where
  "lost P [] s = 0"
| "lost P (Run t # es) s = lost P es (fire (Run t) s)"
| "lost P (Raise t # es) s =
     (if t < length (threads s) \<and> caught (threads s ! t) \<and> P (pc (threads s ! t)) then 1 else 0) +
     lost P es (fire (Raise t) s)"

section \<open>Measures on states\<close>

text \<open>
  Where a thread is inside \<open>addCar\<close> or \<open>removeCar\<close>:
  \<^item> \<open>has_slot\<close>: after its first \<open>acquire\<close> (of \<open>empty\<close> or \<open>full\<close>) has returned and
    before its last \<open>release\<close> (of \<open>full\<close> or \<open>empty\<close>) is done: it holds one of the
    \<open>capacity\<close> slots;
  \<^item> \<open>has_item\<close>: its car is in \<open>queue\<close>, and \<open>full\<close> does not count it (after the
    push and before \<open>full.release()\<close>, or after \<open>full.acquire()\<close> and before the pop);
  \<^item> \<open>in_critical\<close>: after \<open>mutex.acquire()\<close> has returned and before
    \<open>mutex.release()\<close> is done.
\<close>

fun has_slot :: "pc \<Rightarrow> bool" where
  "has_slot (AddAcqMutex c) = True"
| "has_slot (AddCritical c) = True"
| "has_slot (AddRelMutex c) = True"
| "has_slot (AddRelFull c) = True"
| "has_slot (RemAcqMutex i) = True"
| "has_slot (RemCritical i) = True"
| "has_slot (RemRelMutex i c) = True"
| "has_slot (RemRelEmpty i c) = True"
| "has_slot _ = False"

fun has_item :: "pc \<Rightarrow> bool" where
  "has_item (AddRelMutex c) = True"
| "has_item (AddRelFull c) = True"
| "has_item (RemAcqMutex i) = True"
| "has_item (RemCritical i) = True"
| "has_item _ = False"

fun in_critical :: "pc \<Rightarrow> bool" where
  "in_critical (AddCritical c) = True"
| "in_critical (AddRelMutex c) = True"
| "in_critical (RemCritical i) = True"
| "in_critical (RemRelMutex i c) = True"
| "in_critical _ = False"

fun is_fault :: "pc \<Rightarrow> bool" where
  "is_fault Fault = True"
| "is_fault _ = False"

text \<open>The number of threads whose program counter satisfies \<open>P\<close>.\<close>

definition num :: "(pc \<Rightarrow> bool) \<Rightarrow> station \<Rightarrow> int" where
  "num P s = (\<Sum>th\<leftarrow>threads s. of_bool (P (pc th)))"

text \<open>
  Two conditions on a state. No thread is inside the critical section, steps (b) to (d)
  of an operation: between its \<open>mutex.acquire()\<close> and its \<open>mutex.release()\<close>. And the
  stronger one: no call is in progress, no thread is between the first \<open>acquire\<close> and
  the last \<open>release\<close> of an operation. (A thread that waits in the first \<open>acquire\<close> of
  an operation has not done anything yet.)
\<close>

definition no_thread_in_critical :: "station \<Rightarrow> bool" where
  "no_thread_in_critical s = list_all (\<lambda>th. \<not> in_critical (pc th)) (threads s)"

definition no_call_in_progress :: "station \<Rightarrow> bool" where
  "no_call_in_progress s = list_all (\<lambda>th. \<not> has_slot (pc th)) (threads s)"

text \<open>
  The accounting of the queue of capacity \<open>N\<close>. \<open>ls\<close>, \<open>li\<close> and \<open>lm\<close> count the
  threads that an exception has taken away while they held a slot, had their car in the
  FIFO uncounted, or held \<open>mutex\<close>.
\<close>

definition queue_inv :: "int \<Rightarrow> int \<Rightarrow> int \<Rightarrow> int \<Rightarrow> station \<Rightarrow> bool" where
  "queue_inv N ls li lm s =
     (let E = sint (slots (empty (sq s)));
          F = sint (slots (full (sq s)));
          M = sint (slots (mutex (sq s)))
      in 0 \<le> E \<and> 0 \<le> F \<and> 0 \<le> M \<and> N \<le> 2147483647 \<and>
         0 \<le> ls \<and> 0 \<le> li \<and> 0 \<le> lm \<and>
         E + F + num has_slot s + ls = N \<and>
         int (length (queue (sq s))) = F + num has_item s + li \<and>
         M + num in_critical s + lm = 1 \<and>
         num is_fault s = 0)"

text \<open>A thread that has not made a step: one of the three kinds, at its first statement.\<close>

definition fresh :: "thread \<Rightarrow> bool" where
  "fresh th =
     (returned th = [] \<and>
      (case routine th of
         car_routine \<Rightarrow> (case pc th of CarArrive name ident \<Rightarrow> todo th = [] | _ \<Rightarrow> False)
       | pump_routine \<Rightarrow> (case pc th of RemAcqFull pumpId \<Rightarrow> todo th = [] | _ \<Rightarrow> False)
       | client \<Rightarrow>
           (case pc th of
              AddAcqEmpty car \<Rightarrow> True
            | RemAcqFull pumpId \<Rightarrow> True
            | Finished \<Rightarrow> todo th = []
            | _ \<Rightarrow> False)))"

text \<open>
  A thread holds \<open>mutex\<close>: it is in the critical section, or it has left \<open>removeCar\<close>
  by the undefined \<open>queue.front()\<close>. Its calls of \<open>mutex.acquire()\<close> that have returned
  are its calls of \<open>mutex.release()\<close>, plus one when it holds \<open>mutex\<close>.
\<close>

fun mutex_held :: "pc \<Rightarrow> bool" where
  "mutex_held (AddCritical c) = True"
| "mutex_held (AddRelMutex c) = True"
| "mutex_held (RemCritical i) = True"
| "mutex_held (RemRelMutex i c) = True"
| "mutex_held Fault = True"
| "mutex_held _ = False"

definition mutex_inv :: "nat \<Rightarrow> station \<Rightarrow> bool" where
  "mutex_inv t s =
     (t < length (threads s) \<and>
      count_list (trace s) (t, Acquire MutexSem) =
        count_list (trace s) (t, Release MutexSem) +
        (if mutex_held (pc (threads s ! t)) then 1 else 0))"

section \<open>The order of the cars\<close>

text \<open>
  For the order of the cars: the argument of an \<open>addCar\<close> that has started and not yet
  pushed, the car that a \<open>removeCar\<close> has popped and not yet returned, and the cars that
  the calls of a list pass to \<open>addCar\<close>.
\<close>

fun pending :: "pc \<Rightarrow> Car list" where
  "pending (AddAcqEmpty c) = [c]"
| "pending (AddAcqMutex c) = [c]"
| "pending (AddCritical c) = [c]"
| "pending _ = []"

fun in_hand :: "pc \<Rightarrow> Car list" where
  "in_hand (RemRelMutex i c) = [c]"
| "in_hand (RemRelEmpty i c) = [c]"
| "in_hand _ = []"

fun added :: "call list \<Rightarrow> Car list" where
  "added [] = []"
| "added (AddCar c # cs) = c # added cs"
| "added (RemoveCar i # cs) = added cs"

fun removals :: "call list \<Rightarrow> nat" where
  "removals [] = 0"
| "removals (AddCar c # cs) = removals cs"
| "removals (RemoveCar i # cs) = Suc (removals cs)"

text \<open>The statements of \<open>addCar\<close>, of \<open>removeCar\<close> and of the rest of \<open>pump_routine\<close>.\<close>

fun in_add :: "pc \<Rightarrow> bool" where
  "in_add (AddAcqEmpty c) = True"
| "in_add (AddAcqMutex c) = True"
| "in_add (AddCritical c) = True"
| "in_add (AddRelMutex c) = True"
| "in_add (AddRelFull c) = True"
| "in_add _ = False"

fun in_remove :: "pc \<Rightarrow> bool" where
  "in_remove (RemAcqFull i) = True"
| "in_remove (RemAcqMutex i) = True"
| "in_remove (RemCritical i) = True"
| "in_remove (RemRelMutex i c) = True"
| "in_remove (RemRelEmpty i c) = True"
| "in_remove _ = False"

fun in_pump :: "pc \<Rightarrow> bool" where
  "in_pump (PumpAcquire i c) = True"
| "in_pump (PumpBegin i c) = True"
| "in_pump (PumpSleep i c) = True"
| "in_pump (PumpFinish i c) = True"
| "in_pump (PumpRelease i) = True"
| "in_pump (PumpCatch i) = True"
| "in_pump _ = False"

text \<open>
  A producer is a client that only calls \<open>addCar\<close>; a consumer only calls \<open>removeCar\<close>:
  a client with no \<open>addCar\<close> among its calls, or \<open>pump_routine\<close>.
\<close>

definition producer :: "thread \<Rightarrow> bool" where
  "producer th =
     (routine th = client \<and> removals (todo th) = 0 \<and> (in_add (pc th) \<or> pc th = Finished))"

definition consumer :: "thread \<Rightarrow> bool" where
  "consumer th =
     (routine th \<noteq> car_routine \<and> added (todo th) = [] \<and>
      (in_remove (pc th) \<or> in_pump (pc th) \<or> pc th = Finished \<or> pc th = Fault))"

text \<open>
  Thread 0 is the producer and thread 1 the consumer: the cars returned, the car in the
  consumer's hand, the cars queued, the car the producer is adding and the cars it has
  still to add are, in this order, the cars the producer was given.
\<close>

definition fifo_inv :: "Car list \<Rightarrow> station \<Rightarrow> bool" where
  "fifo_inv cars s =
     (length (threads s) = 2 \<and> producer (threads s ! 0) \<and> consumer (threads s ! 1) \<and>
      returned (threads s ! 1) @ in_hand (pc (threads s ! 1)) @ queue (sq s) @
        pending (pc (threads s ! 0)) @ added (todo (threads s ! 0)) = cars)"

section \<open>The bays\<close>

text \<open>
  For a thread that runs \<open>pump_routine\<close>: it is between \<open>pumps.acquire()\<close> and
  \<open>pumps.release()\<close>, and holds a bay; it has left the loop by an exception, and is in
  the handler or has returned.
\<close>

fun bay_held :: "pc \<Rightarrow> bool" where
  "bay_held (PumpBegin i c) = True"
| "bay_held (PumpSleep i c) = True"
| "bay_held (PumpFinish i c) = True"
| "bay_held (PumpRelease i) = True"
| "bay_held _ = False"

fun left_loop :: "pc \<Rightarrow> bool" where
  "left_loop (PumpCatch i) = True"
| "left_loop Finished = True"
| "left_loop _ = False"

text \<open>
  Thread \<open>t\<close> runs \<open>pump_routine\<close>. Its calls of \<open>pumps.acquire()\<close> that have returned
  are its calls of \<open>pumps.release()\<close>, or one more; in the loop, one more exactly when
  it holds a bay.
\<close>

definition bay_inv :: "nat \<Rightarrow> station \<Rightarrow> bool" where
  "bay_inv t s =
     (let p = pc (threads s ! t);
          acquired = count_list (trace s) (t, Acquire PumpsSem);
          released = count_list (trace s) (t, Release PumpsSem)
      in t < length (threads s) \<and> routine (threads s ! t) = pump_routine \<and>
         (try_pc p \<noteq> None \<or> left_loop p \<or> p = Fault) \<and>
         released \<le> acquired \<and> acquired \<le> released + 1 \<and>
         (\<not> left_loop p \<longrightarrow> acquired = released + (if bay_held p then 1 else 0)))"

text \<open>Thread \<open>t\<close> has left the loop with \<open>d\<close> calls of \<open>pumps.acquire()\<close> not released.\<close>

definition left_inv :: "nat \<Rightarrow> nat \<Rightarrow> station \<Rightarrow> bool" where
  "left_inv t d s =
     (t < length (threads s) \<and> routine (threads s ! t) = pump_routine \<and>
      left_loop (pc (threads s ! t)) \<and>
      count_list (trace s) (t, Acquire PumpsSem) =
        count_list (trace s) (t, Release PumpsSem) + d)"

section \<open>The order of the cars, with exceptions\<close>

text \<open>
  The consumer is gone: it ran \<open>pump_routine\<close> and an exception has taken it out of the
  loop. Until then the accounting above holds, with no thread lost to the queue; from
  then on nothing is returned any more, and what was returned stays a prefix of the cars.
\<close>

definition gone :: "thread \<Rightarrow> bool" where
  "gone th = (routine th = pump_routine \<and> left_loop (pc th))"

definition order_inv :: "Car list \<Rightarrow> int \<Rightarrow> station \<Rightarrow> bool" where
  "order_inv cars N s =
     (if gone (threads s ! 1)
      then length (threads s) = 2 \<and> producer (threads s ! 0) \<and>
           prefix (returned (threads s ! 1)) cars
      else fifo_inv cars s \<and> queue_inv N 0 0 0 s)"

section \<open>Examples\<close>

text \<open>Cars for the examples, named as \<open>main\<close> names them (line 193).\<close>

definition car_a :: Car where
  "car_a = \<lparr>carName = ''Car 1'', carId = 1\<rparr>"

definition car_b :: Car where
  "car_b = \<lparr>carName = ''Car 2'', carId = 2\<rparr>"

definition car_c :: Car where
  "car_c = \<lparr>carName = ''Car 3'', carId = 3\<rparr>"

section \<open>Words\<close>

lemma sint_dec: "0 < sint (x::cint) \<Longrightarrow> sint (x - 1) = sint x - 1"
  using sint_ge[of x] sint_lt[of x]
  by (simp add: sint_word_ariths signed_take_bit_int_eq_self)

lemma sint_inc: "sint (x::cint) < 2147483647 \<Longrightarrow> sint (x + 1) = sint x + 1"
  using sint_ge[of x] sint_lt[of x]
  by (simp add: sint_word_ariths signed_take_bit_int_eq_self)

lemma neq_INT_MAX: "(x \<noteq> INT_MAX) = (sint x < 2147483647)"
proof -
  have "(x = INT_MAX) = (sint x = sint INT_MAX)"
    by (rule word_eq_iff_signed)
  then show ?thesis
    using sint_lt[of x] by (auto simp: INT_MAX_def)
qed

lemma acquire_Some:
  "acquire x = Some y \<Longrightarrow> 0 < sint (slots x) \<and> sint (slots y) = sint (slots x) - 1"
  by (auto simp: acquire_def word_sless_alt sint_dec split: if_splits)

lemma acquire_None: "(acquire x = None) = (sint (slots x) \<le> 0)"
  by (auto simp: acquire_def word_sless_alt)

lemma release_sint:
  "sint (slots x) < 2147483647 \<Longrightarrow> sint (slots (release x)) = sint (slots x) + 1"
  by (simp add: release_def sint_inc)

section \<open>Sequences of calls on a semaphore\<close>

lemma sem_apply_nonneg:
  "0 \<le> sint (slots s) \<Longrightarrow> c = AcquireCall \<or> slots s \<noteq> INT_MAX \<Longrightarrow> 0 \<le> sint (slots (sem_apply c s))"
  by (cases c) (auto simp: neq_INT_MAX release_sint dest: acquire_Some split: option.splits)

lemma sem_run_nonneg:
  "0 \<le> sint (slots s) \<Longrightarrow> below_max cs s \<Longrightarrow> 0 \<le> sint (slots (sem_run cs s))"
  by (induction cs arbitrary: s) (auto simp: sem_apply_nonneg)

section \<open>Counting threads\<close>

lemma sum_of_bool_update:
  "t < length ths \<Longrightarrow>
   (\<Sum>th\<leftarrow>ths[t := th']. of_bool (P (pc th))) =
   (\<Sum>th\<leftarrow>ths. of_bool (P (pc th))) - of_bool (P (pc (ths ! t))) + (of_bool (P (pc th')) :: int)"
proof (induction ths arbitrary: t)
  case Nil
  then show ?case by simp
next
  case (Cons a ths)
  then show ?case by (cases t) simp_all
qed

lemma num_nonneg: "0 \<le> num P s"
  unfolding num_def by (rule sum_list_nonneg) auto

lemma num_pos: "t < length (threads s) \<Longrightarrow> P (pc (threads s ! t)) \<Longrightarrow> 1 \<le> num P s"
proof -
  assume a: "t < length (threads s)" "P (pc (threads s ! t))"
  have "threads s ! t \<in> set (threads s)" using a by simp
  then have "(of_bool (P (pc (threads s ! t))) :: int) \<le> (\<Sum>th\<leftarrow>threads s. of_bool (P (pc th)))"
    by (intro member_le_sum_list) auto
  with a show ?thesis by (simp add: num_def)
qed

lemma num_threads_update:
  "t < length (threads s) \<Longrightarrow>
   num P (s\<lparr>threads := (threads s)[t := th']\<rparr>) =
   num P s - of_bool (P (pc (threads s ! t))) + of_bool (P (pc th'))"
  by (simp add: num_def sum_of_bool_update)

lemma num_goto:
  "t < length (threads s) \<Longrightarrow>
   num P (goto t p s) = num P s - of_bool (P (pc (threads s ! t))) + of_bool (P p)"
  by (simp add: goto_def num_threads_update)

lemma num_emit [simp]: "num P (emit t as s) = num P s"
  by (simp add: num_def emit_def)

lemma num_sq_update [simp]: "num P (s\<lparr>sq := q\<rparr>) = num P s"
  by (simp add: num_def)

lemma num_pumps_update [simp]: "num P (s\<lparr>pumps := q\<rparr>) = num P s"
  by (simp add: num_def)

lemma sq_goto [simp]: "sq (goto t p s) = sq s"
  and pumps_goto [simp]: "pumps (goto t p s) = pumps s"
  and trace_goto [simp]: "trace (goto t p s) = trace s"
  and length_threads_goto [simp]: "length (threads (goto t p s)) = length (threads s)"
  by (simp_all add: goto_def)

lemma sq_emit [simp]: "sq (emit t as s) = sq s"
  and pumps_emit [simp]: "pumps (emit t as s) = pumps s"
  and threads_emit [simp]: "threads (emit t as s) = threads s"
  and trace_emit [simp]: "trace (emit t as s) = trace s @ map (Pair t) as"
  by (simp_all add: emit_def)

lemma sq_next_call [simp]: "sq (next_call t s) = sq s"
  and pumps_next_call [simp]: "pumps (next_call t s) = pumps s"
  and trace_next_call [simp]: "trace (next_call t s) = trace s"
  and length_threads_next_call [simp]: "length (threads (next_call t s)) = length (threads s)"
  by (simp_all add: next_call_def Let_def)

lemma sq_return_car [simp]: "sq (return_car t i c s) = sq s"
  and pumps_return_car [simp]: "pumps (return_car t i c s) = pumps s"
  and trace_return_car [simp]: "trace (return_car t i c s) = trace s"
  and length_threads_return_car [simp]:
    "length (threads (return_car t i c s)) = length (threads s)"
  by (simp_all add: return_car_def Let_def)

lemma num_next_call:
  "t < length (threads s) \<Longrightarrow>
   num P (next_call t s) =
   num P s - of_bool (P (pc (threads s ! t))) + of_bool (P (first_call (todo (threads s ! t))))"
  by (simp add: next_call_def Let_def num_threads_update)

lemma num_return_car:
  "t < length (threads s) \<Longrightarrow>
   num P (return_car t i c s) =
   num P s - of_bool (P (pc (threads s ! t))) +
   of_bool (P (if routine (threads s ! t) = pump_routine then PumpAcquire i c
               else first_call (todo (threads s ! t))))"
  by (simp add: return_car_def Let_def num_threads_update num_goto num_next_call)

lemma first_call_outside [simp]:
  "\<not> has_slot (first_call cs)" "\<not> has_item (first_call cs)"
  "\<not> in_critical (first_call cs)" "\<not> is_fault (first_call cs)"
  by (induction cs rule: first_call.induct) simp_all

lemma fresh_car_thread [simp]: "fresh (car_thread name ident)"
  by (simp add: fresh_def car_thread_def)

lemma fresh_pump_thread [simp]: "fresh (pump_thread pumpId)"
  by (simp add: fresh_def pump_thread_def)

lemma fresh_client_thread [simp]: "fresh (client_thread cs)"
  by (cases cs rule: first_call.cases) (simp_all add: fresh_def client_thread_def)

lemma fresh_outside:
  "fresh th \<Longrightarrow> \<not> has_slot (pc th) \<and> \<not> has_item (pc th) \<and> \<not> in_critical (pc th) \<and> \<not> is_fault (pc th)"
  by (auto simp: fresh_def split: routine.splits pc.splits)

lemma sum_of_bool_zero:
  "list_all (\<lambda>th. \<not> P (pc th)) ths \<Longrightarrow> (\<Sum>th\<leftarrow>ths. of_bool (P (pc th))) = (0::int)"
  by (induction ths) auto

lemma num_zero: "list_all (\<lambda>th. \<not> P (pc th)) (threads s) \<Longrightarrow> num P s = 0"
  by (simp add: num_def sum_of_bool_zero)

lemma no_call_num:
  assumes "no_call_in_progress s"
  shows "num has_slot s = 0" "num has_item s = 0" "num in_critical s = 0"
proof -
  have a: "\<And>th. th \<in> set (threads s) \<Longrightarrow> \<not> has_slot (pc th)"
    using assms by (simp add: no_call_in_progress_def list_all_iff)
  have b: "\<not> has_slot x \<Longrightarrow> \<not> has_item x \<and> \<not> in_critical x" for x
    by (cases x) simp_all
  show "num has_slot s = 0" "num has_item s = 0" "num in_critical s = 0"
    using a b by (auto intro!: num_zero simp: list_all_iff)
qed

lemma no_critical_num: "no_thread_in_critical s \<Longrightarrow> num in_critical s = 0"
  by (simp add: no_thread_in_critical_def num_zero)

lemma num_mono: "(\<And>p. P p \<Longrightarrow> Q p) \<Longrightarrow> num P s \<le> num Q s"
  unfolding num_def by (rule sum_list_mono) auto

section \<open>Exceptions\<close>

lemma lost_nonneg: "0 \<le> lost P sch s"
  by (induction P sch s rule: lost.induct) simp_all

lemma lost_mono: "(\<And>p. P p \<Longrightarrow> Q p) \<Longrightarrow> lost P sch s \<le> lost Q sch s"
proof (induction P sch s rule: lost.induct)
  case (1 P s)
  then show ?case by simp
next
  case (2 P t es s)
  then show ?case by simp
next
  case (3 P t es s)
  then have "lost P es (fire (Raise t) s) \<le> lost Q es (fire (Raise t) s)"
    by simp
  with 3(2) show ?case by auto
qed

lemma raise_at_not_caught:
  "\<not> caught (threads s ! t) \<Longrightarrow> raise_at t (pc (threads s ! t)) s = s"
  by (auto simp: raise_at_def caught_def)

lemma raise_at_caught:
  "caught (threads s ! t) \<Longrightarrow>
   \<exists>pumpId. try_pc (pc (threads s ! t)) = Some pumpId \<and>
            raise_at t (pc (threads s ! t)) s = goto t (PumpCatch pumpId) s"
  by (auto simp: raise_at_def caught_def)

section \<open>The invariant of the queue\<close>

text \<open>
  Every step keeps \<open>queue_inv\<close>. A \<open>release\<close> never starts from \<open>INT_MAX\<close> here: the
  thread that releases \<open>full\<close> or \<open>empty\<close> holds a slot itself, so the count is below
  the capacity, and the thread that releases \<open>mutex\<close> is in the critical section, so the
  count is 0.
\<close>

lemma queue_inv_step_at:
  assumes "queue_inv N ls li lm s" and "t < length (threads s)" and "pc (threads s ! t) = p"
  shows "queue_inv N ls li lm (step_at t p s)"
proof -
  note pos = num_pos [OF assms(2), of has_slot] num_pos [OF assms(2), of has_item]
    num_pos [OF assms(2), of in_critical] num_pos [OF assms(2), of is_fault]
  note nn = num_nonneg [of has_slot s] num_nonneg [of has_item s] num_nonneg [of in_critical s]
  show ?thesis
  proof (cases p)
    case (AddAcqEmpty c)
    then show ?thesis using assms pos nn
      by (auto simp: queue_inv_def Let_def num_goto num_next_call num_return_car dest!: acquire_Some split: option.splits)
  next
    case (AddRelFull c)
    then show ?thesis using assms pos nn
      by (auto simp: queue_inv_def Let_def num_goto num_next_call num_return_car release_sint)
  next
    case (RemCritical i)
    then show ?thesis using assms pos nn
      by (auto simp: queue_inv_def Let_def num_goto num_next_call num_return_car split: list.splits)
  next
    case (RemRelEmpty i c)
    then show ?thesis using assms pos nn
      by (auto simp: queue_inv_def Let_def num_goto num_next_call num_return_car release_sint)
  qed (use assms pos nn in \<open>auto simp: queue_inv_def Let_def num_goto num_next_call num_return_car release_sint dest!: acquire_Some split: option.splits\<close>)
qed

text \<open>
  A caught exception moves what the thread held from the count of the threads to the
  count of the losses.
\<close>

lemma queue_inv_raise_at:
  assumes "queue_inv N ls li lm s" and "t < length (threads s)" and "pc (threads s ! t) = p"
  shows "queue_inv N
           (ls + (if caught (threads s ! t) \<and> has_slot p then 1 else 0))
           (li + (if caught (threads s ! t) \<and> has_item p then 1 else 0))
           (lm + (if caught (threads s ! t) \<and> in_critical p then 1 else 0))
           (raise_at t p s)"
proof (cases "caught (threads s ! t)")
  case False
  then show ?thesis
    using assms raise_at_not_caught [of s t] by simp
next
  case True
  then obtain i where i: "try_pc p = Some i" "raise_at t p s = goto t (PumpCatch i) s"
    using raise_at_caught [of s t] assms(3) by auto
  have "\<not> is_fault p"
    using i(1) by (cases p) simp_all
  then show ?thesis
    using assms True i(2)
    by (auto simp: queue_inv_def Let_def num_goto)
qed

lemma queue_inv_exec:
  "queue_inv N ls li lm s \<Longrightarrow>
   queue_inv N (ls + lost has_slot sch s) (li + lost has_item sch s)
     (lm + lost in_critical sch s) (exec sch s)"
proof (induction sch arbitrary: s ls li lm)
  case Nil
  then show ?case by simp
next
  case (Cons e sch)
  show ?case
  proof (cases e)
    case (Run t)
    have "queue_inv N ls li lm (fire (Run t) s)"
      using Cons.prems by (simp add: queue_inv_step_at)
    from Cons.IH [OF this] Run show ?thesis by simp
  next
    case (Raise t)
    show ?thesis
    proof (cases "t < length (threads s)")
      case True
      from queue_inv_raise_at [OF Cons.prems True refl]
      have "queue_inv N
           (ls + (if caught (threads s ! t) \<and> has_slot (pc (threads s ! t)) then 1 else 0))
           (li + (if caught (threads s ! t) \<and> has_item (pc (threads s ! t)) then 1 else 0))
           (lm + (if caught (threads s ! t) \<and> in_critical (pc (threads s ! t)) then 1 else 0))
           (fire (Raise t) s)"
        using True by simp
      from Cons.IH [OF this] Raise True show ?thesis
        by (simp add: add.assoc)
    next
      case False
      with Cons.IH [OF Cons.prems] Raise show ?thesis by simp
    qed
  qed
qed

lemma queue_inv_init:
  assumes "SharedQueue_new capacity = Inr q" and "list_all fresh ths"
  shows "queue_inv (sint capacity) 0 0 0 \<lparr>sq = q, pumps = p, threads = ths, trace = tr\<rparr>"
proof -
  have z: "num P \<lparr>sq = q, pumps = p, threads = ths, trace = tr\<rparr> = 0"
    if "\<And>th. fresh th \<Longrightarrow> \<not> P (pc th)" for P
    using assms(2) that by (intro num_zero) (auto simp: list_all_iff)
  have "num has_slot \<lparr>sq = q, pumps = p, threads = ths, trace = tr\<rparr> = 0"
    "num has_item \<lparr>sq = q, pumps = p, threads = ths, trace = tr\<rparr> = 0"
    "num in_critical \<lparr>sq = q, pumps = p, threads = ths, trace = tr\<rparr> = 0"
    "num is_fault \<lparr>sq = q, pumps = p, threads = ths, trace = tr\<rparr> = 0"
    by (rule z, simp add: fresh_outside)+
  then show ?thesis
    using assms(1) sint_lt [of capacity]
    by (auto simp: queue_inv_def SharedQueue_new_def Semaphore_new_def word_sless_alt split: if_splits)
qed

section \<open>Steps of other threads\<close>

lemma count_list_append2:
  "count_list (xs @ ys) x = count_list xs x + count_list ys x"
  by (induction xs) simp_all

lemma other_step_at:
  assumes "u \<noteq> t"
  shows "threads (step_at u p s) ! t = threads s ! t \<and>
         length (threads (step_at u p s)) = length (threads s) \<and>
         count_list (trace (step_at u p s)) (t, a) = count_list (trace s) (t, a)"
  using assms
  by (cases p)
    (simp_all add: goto_def emit_def next_call_def return_car_def Let_def count_list_append2
      split: option.splits list.splits)


lemma other_raise_at:
  assumes "u \<noteq> t"
  shows "threads (raise_at u p s) ! t = threads s ! t \<and>
         length (threads (raise_at u p s)) = length (threads s) \<and>
         trace (raise_at u p s) = trace s"
  using assms by (simp add: raise_at_def goto_def split: option.splits)

lemma other_fire:
  assumes "u \<noteq> t"
  shows "threads (fire (Run u) s) ! t = threads s ! t"
    and "threads (fire (Raise u) s) ! t = threads s ! t"
  using assms other_step_at [of u t "pc (threads s ! u)" s]
    other_raise_at [of u t "pc (threads s ! u)" s]
  by simp_all

lemma length_threads_exec [simp]: "length (threads (exec sch s)) = length (threads s)"
proof (induction sch arbitrary: s)
  case Nil
  then show ?case by simp
next
  case (Cons e sch)
  have "length (threads (fire e s)) = length (threads s)"
  proof (cases e)
    case (Run u)
    then show ?thesis
      using other_step_at [of u "Suc u" "pc (threads s ! u)" s] by simp
  next
    case (Raise u)
    then show ?thesis
      using other_raise_at [of u "Suc u" "pc (threads s ! u)" s] by simp
  qed
  with Cons show ?case by simp
qed

section \<open>The invariant of the order\<close>

lemma first_call_cases:
  "first_call cs = Finished \<and> cs = [] \<or>
   (\<exists>c cs'. cs = AddCar c # cs' \<and> first_call cs = AddAcqEmpty c) \<or>
   (\<exists>i cs'. cs = RemoveCar i # cs' \<and> first_call cs = RemAcqFull i)"
  by (cases cs rule: first_call.cases) simp_all

lemma fifo_producer_step:
  assumes "fifo_inv cars s" and "pc (threads s ! 0) = p"
  shows "fifo_inv cars (step_at 0 p s)"
proof -
  obtain P C where ths: "threads s = [P, C]"
    using assms(1) by (cases "threads s"; cases "tl (threads s)") (auto simp: fifo_inv_def)
  show ?thesis
  proof (cases p)
    case (AddRelFull c)
    then show ?thesis
      using assms ths first_call_cases [of "todo P"]
      by (auto simp: fifo_inv_def producer_def goto_def emit_def next_call_def)
  qed (use assms ths in \<open>auto simp: fifo_inv_def producer_def goto_def emit_def split: option.splits\<close>)
qed

lemma fifo_consumer_step:
  assumes "fifo_inv cars s" and "pc (threads s ! 1) = p"
  shows "fifo_inv cars (step_at 1 p s)"
proof -
  obtain P C where ths: "threads s = [P, C]"
    using assms(1) by (cases "threads s"; cases "tl (threads s)") (auto simp: fifo_inv_def)
  show ?thesis
  proof (cases p)
    case (RemRelEmpty i c)
    then show ?thesis
      using assms ths first_call_cases [of "todo C"]
      by (auto simp: fifo_inv_def consumer_def goto_def emit_def next_call_def return_car_def Let_def)
  qed (use assms ths in \<open>auto simp: fifo_inv_def consumer_def goto_def emit_def split: option.splits list.splits\<close>)
qed

lemma added_map_AddCar [simp]: "added (map AddCar cars) = cars"
  by (induction cars) simp_all

lemma removals_map_AddCar [simp]: "removals (map AddCar cars) = 0"
  by (induction cars) simp_all

lemma fifo_init:
  assumes "SharedQueue_new capacity = Inr q" and "fresh C" and "consumer C"
  shows "fifo_inv cars \<lparr>sq = q, pumps = p, threads = [client_thread (map AddCar cars), C], trace = tr\<rparr>"
proof -
  have "queue q = []"
    using assms(1) by (auto simp: SharedQueue_new_def Semaphore_new_def split: sum.splits if_splits)
  moreover have "returned C = []" "in_hand (pc C) = []"
    using assms(2) by (auto simp: fresh_def split: routine.splits pc.splits)
  ultimately show ?thesis
    using assms(3)
    by (cases cars) (simp_all add: fifo_inv_def producer_def client_thread_def)
qed

lemma no_fault_nth:
  "num is_fault s = 0 \<Longrightarrow> t < length (threads s) \<Longrightarrow> pc (threads s ! t) \<noteq> Fault"
  using num_pos [of t s is_fault] by auto

lemma producer_step:
  assumes "length (threads s) = 2" and "producer (threads s ! 0)" and "pc (threads s ! 0) = p"
  shows "producer (threads (step_at 0 p s) ! 0)"
proof -
  obtain P C where ths: "threads s = [P, C]"
    using assms(1) by (cases "threads s"; cases "tl (threads s)") auto
  show ?thesis
  proof (cases p)
    case (AddRelFull c)
    then show ?thesis
      using assms ths first_call_cases [of "todo P"]
      by (auto simp: producer_def goto_def emit_def next_call_def)
  qed (use assms ths in \<open>auto simp: producer_def goto_def emit_def split: option.splits\<close>)
qed

lemma gone_step:
  assumes "gone (threads s ! t)" and "t < length (threads s)"
  shows "gone (threads (step_at t (pc (threads s ! t)) s) ! t) \<and>
         returned (threads (step_at t (pc (threads s ! t)) s) ! t) = returned (threads s ! t)"
  using assms by (cases "pc (threads s ! t)") (auto simp: gone_def goto_def emit_def)

lemma gone_not_caught: "gone th \<Longrightarrow> \<not> caught th"
  by (cases "pc th") (auto simp: gone_def caught_def)

lemma producer_not_caught: "producer th \<Longrightarrow> \<not> caught th"
  by (auto simp: producer_def caught_def)

lemma order_inv_fire:
  assumes "order_inv cars N s"
  shows "order_inv cars N (fire e s)"
proof -
  have len: "length (threads s) = 2"
    using assms by (auto simp: order_inv_def fifo_inv_def split: if_splits)
  have prod: "producer (threads s ! 0)"
    using assms by (auto simp: order_inv_def fifo_inv_def split: if_splits)
  have len': "length (threads (fire e s)) = 2"
    using len length_threads_exec [of "[e]" s] by simp
  show ?thesis
  proof (cases "gone (threads s ! 1)")
    case True
    then have pre: "prefix (returned (threads s ! 1)) cars"
      using assms by (simp add: order_inv_def)
    show ?thesis
    proof (cases e)
      case (Run t)
      consider "t = 0" | "t = 1" | "\<not> t < length (threads s)"
        using len by linarith
      then show ?thesis
      proof cases
        case 1
        have "threads (fire (Run 0) s) ! 1 = threads s ! 1"
          by (rule other_fire) simp
        moreover have "producer (threads (fire (Run 0) s) ! 0)"
          using len prod by (simp add: producer_step)
        ultimately show ?thesis
          using True pre len' Run 1 by (simp add: order_inv_def)
      next
        case 2
        have "threads (fire (Run 1) s) ! 0 = threads s ! 0"
          by (rule other_fire) simp
        moreover have "gone (threads (fire (Run 1) s) ! 1) \<and>
            returned (threads (fire (Run 1) s) ! 1) = returned (threads s ! 1)"
          using gone_step [OF True] len by simp
        ultimately show ?thesis
          using pre prod len' Run 2 by (simp add: order_inv_def)
      next
        case 3
        with assms Run show ?thesis by simp
      qed
    next
      case (Raise t)
      consider "t = 0" | "t = 1" | "\<not> t < length (threads s)"
        using len by linarith
      then have "fire e s = s"
        using Raise True prod
        by cases (simp_all add: raise_at_not_caught gone_not_caught producer_not_caught)
      with assms show ?thesis by simp
    qed
  next
    case False
    then have f: "fifo_inv cars s" and q: "queue_inv N 0 0 0 s"
      using assms by (simp_all add: order_inv_def)
    show ?thesis
    proof (cases e)
      case (Run t)
      consider "t = 0" | "t = 1" | "\<not> t < length (threads s)"
        using len by linarith
      then show ?thesis
      proof cases
        case 1
        have "threads (fire (Run 0) s) ! 1 = threads s ! 1"
          by (rule other_fire) simp
        then have "\<not> gone (threads (fire e s) ! 1)"
          using False Run 1 by simp
        moreover have "fifo_inv cars (fire e s)"
          using f len Run 1 fifo_producer_step [of cars s] by simp
        moreover have "queue_inv N 0 0 0 (fire e s)"
          using q len Run 1 by (simp add: queue_inv_step_at)
        ultimately show ?thesis by (simp add: order_inv_def)
      next
        case 2
        have fi: "fifo_inv cars (fire e s)"
          using f len Run 2 fifo_consumer_step [of cars s] by simp
        have qi: "queue_inv N 0 0 0 (fire e s)"
          using q len Run 2 by (simp add: queue_inv_step_at)
        show ?thesis
        proof (cases "gone (threads (fire e s) ! 1)")
          case True
          have "prefix (returned (threads (fire e s) ! 1)) cars"
            using fi by (metis fifo_inv_def prefixI)
          with True fi show ?thesis
            by (simp add: order_inv_def fifo_inv_def)
        next
          case False
          with fi qi show ?thesis by (simp add: order_inv_def)
        qed
      next
        case 3
        with assms Run show ?thesis by simp
      qed
    next
      case (Raise t)
      show ?thesis
      proof (cases "t < length (threads s) \<and> caught (threads s ! t)")
        case False
        then have "fire e s = s"
          using Raise by (auto simp: raise_at_not_caught)
        with assms show ?thesis by simp
      next
        case True
        then have t1: "t = 1"
          using len prod producer_not_caught [of "threads s ! 0"]
          by (cases "t = 0") auto
        obtain i where i: "raise_at 1 (pc (threads s ! 1)) s = goto 1 (PumpCatch i) s"
          using True t1 raise_at_caught [of s 1] by auto
        have "prefix (returned (threads s ! 1)) cars"
          using f by (metis fifo_inv_def prefixI)
        then show ?thesis
          using True t1 Raise i len prod
          by (simp add: order_inv_def gone_def goto_def caught_def)
      qed
    qed
  qed
qed

lemma order_inv_exec: "order_inv cars N s \<Longrightarrow> order_inv cars N (exec sch s)"
  by (induction sch arbitrary: s) (simp_all add: order_inv_fire)

section \<open>The invariant of the bays\<close>

lemma bay_inv_own_step:
  assumes "bay_inv t s" and "pc (threads s ! t) = p"
  shows "bay_inv t (step_at t p s)"
proof (cases p)
  case (RemRelEmpty i c)
  then show ?thesis
    using assms
    by (simp add: bay_inv_def goto_def emit_def return_car_def Let_def count_list_append2)
qed (use assms in \<open>auto simp: bay_inv_def goto_def emit_def Let_def count_list_append2
      split: option.splits list.splits\<close>)

lemma bay_inv_own_raise:
  assumes "bay_inv t s" and "pc (threads s ! t) = p"
  shows "bay_inv t (raise_at t p s)"
  using assms
  by (cases p) (auto simp: raise_at_def bay_inv_def goto_def Let_def split: if_splits)

lemma bay_inv_fire:
  assumes "bay_inv t s"
  shows "bay_inv t (fire e s)"
proof -
  have len: "t < length (threads s)"
    using assms by (simp add: bay_inv_def Let_def)
  show ?thesis
  proof (cases e)
    case (Run u)
    show ?thesis
    proof (cases "u = t")
      case True
      with Run len show ?thesis
        by (simp add: bay_inv_own_step [OF assms])
    next
      case False
      with assms Run show ?thesis
        using other_step_at [of u t "pc (threads s ! u)" s]
        by (simp add: bay_inv_def Let_def)
    qed
  next
    case (Raise u)
    show ?thesis
    proof (cases "u = t")
      case True
      with Raise len show ?thesis
        by (simp add: bay_inv_own_raise [OF assms])
    next
      case False
      with assms Raise show ?thesis
        using other_raise_at [of u t "pc (threads s ! u)" s]
        by (simp add: bay_inv_def Let_def)
    qed
  qed
qed

lemma bay_inv_exec: "bay_inv t s \<Longrightarrow> bay_inv t (exec sch s)"
  by (induction sch arbitrary: s) (simp_all add: bay_inv_fire)

text \<open>The handler makes no call on \<open>pumps\<close>: what was not released stays so.\<close>

lemma left_inv_fire:
  assumes "left_inv t d s"
  shows "left_inv t d (fire e s)"
proof -
  have len: "t < length (threads s)"
    using assms by (simp add: left_inv_def)
  show ?thesis
  proof (cases e)
    case (Run u)
    show ?thesis
    proof (cases "u = t")
      case True
      with Run len assms show ?thesis
        by (cases "pc (threads s ! t)")
          (auto simp: left_inv_def goto_def emit_def count_list_append2)
    next
      case False
      with assms Run show ?thesis
        using other_step_at [of u t "pc (threads s ! u)" s]
        by (simp add: left_inv_def)
    qed
  next
    case (Raise u)
    show ?thesis
    proof (cases "u = t")
      case True
      with Raise len assms show ?thesis
        by (cases "pc (threads s ! t)") (auto simp: left_inv_def raise_at_def)
    next
      case False
      with assms Raise show ?thesis
        using other_raise_at [of u t "pc (threads s ! u)" s]
        by (simp add: left_inv_def)
    qed
  qed
qed

lemma left_inv_exec: "left_inv t d s \<Longrightarrow> left_inv t d (exec sch s)"
  by (induction sch arbitrary: s) (simp_all add: left_inv_fire)

lemma bay_inv_raise_left:
  assumes "bay_inv t s" and "try_pc (pc (threads s ! t)) \<noteq> None"
  shows "left_inv t (if bay_held (pc (threads s ! t)) then 1 else 0) (fire (Raise t) s)"
  using assms
  by (cases "pc (threads s ! t)")
    (auto simp: bay_inv_def left_inv_def raise_at_def goto_def Let_def)

section \<open>The calls on the mutex\<close>

lemma fresh_mutex_free: "fresh th \<Longrightarrow> \<not> mutex_held (pc th)"
  by (auto simp: fresh_def split: routine.splits pc.splits)

lemma mutex_inv_own_step:
  assumes "mutex_inv t s" and "pc (threads s ! t) = p"
  shows "mutex_inv t (step_at t p s)"
proof (cases p)
  case (AddRelFull c)
  then show ?thesis
    using assms first_call_cases [of "todo (threads s ! t)"]
    by (auto simp: mutex_inv_def goto_def emit_def next_call_def Let_def count_list_append2)
next
  case (RemRelEmpty i c)
  then show ?thesis
    using assms first_call_cases [of "todo (threads s ! t)"]
    by (auto simp: mutex_inv_def goto_def emit_def return_car_def next_call_def Let_def
        count_list_append2)
qed (use assms in \<open>auto simp: mutex_inv_def goto_def emit_def Let_def count_list_append2
      split: option.splits list.splits\<close>)

lemma mutex_inv_own_raise:
  assumes "mutex_inv t s" and "pc (threads s ! t) = p"
    and "\<not> (caught (threads s ! t) \<and> in_critical p)"
  shows "mutex_inv t (raise_at t p s)"
  using assms
  by (cases p) (auto simp: raise_at_def caught_def mutex_inv_def goto_def)

lemma mutex_inv_exec:
  "mutex_inv t s \<Longrightarrow> lost in_critical sch s = 0 \<Longrightarrow> mutex_inv t (exec sch s)"
proof (induction sch arbitrary: s)
  case Nil
  then show ?case by simp
next
  case (Cons e sch)
  have len: "t < length (threads s)"
    using Cons.prems(1) by (simp add: mutex_inv_def)
  show ?case
  proof (cases e)
    case (Run u)
    have "mutex_inv t (fire (Run u) s)"
    proof (cases "u = t")
      case True
      with len show ?thesis
        by (simp add: mutex_inv_own_step [OF Cons.prems(1)])
    next
      case False
      with Cons.prems(1) show ?thesis
        using other_step_at [of u t "pc (threads s ! u)" s]
        by (simp add: mutex_inv_def)
    qed
    with Cons.IH [of "fire (Run u) s"] Cons.prems(2) Run show ?thesis by simp
  next
    case (Raise u)
    have z: "(if u < length (threads s) \<and> caught (threads s ! u) \<and> in_critical (pc (threads s ! u))
              then 1 else 0) = (0::int)"
      and r: "lost in_critical sch (fire (Raise u) s) = 0"
      using Cons.prems(2) Raise lost_nonneg [of in_critical sch "fire (Raise u) s"]
      by (auto split: if_splits)
    have "mutex_inv t (fire (Raise u) s)"
    proof (cases "u = t")
      case True
      with len z show ?thesis
        by (auto simp: mutex_inv_own_raise [OF Cons.prems(1)] split: if_splits)
    next
      case False
      with Cons.prems(1) show ?thesis
        using other_raise_at [of u t "pc (threads s ! u)" s]
        by (simp add: mutex_inv_def)
    qed
    with Cons.IH [of "fire (Raise u) s"] r Raise show ?thesis by simp
  qed
qed

section \<open>Schedules\<close>

lemma exec_append: "exec (a @ b) s = exec b (exec a s)"
  by (induction a arbitrary: s) simp_all

lemma fresh_not_gone: "fresh th \<Longrightarrow> \<not> gone th"
  by (auto simp: fresh_def gone_def split: routine.splits pc.splits)

section \<open>Running a schedule\<close>

text \<open>The definitions that \<open>simp\<close> unfolds to run a given schedule on a given station.\<close>

lemmas run_defs = goto_def emit_def next_call_def return_car_def acquire_def release_def
  raise_at_def caught_def word_sless_alt Let_def

lemmas new_defs = station_new_def SharedQueue_new_def Semaphore_new_def car_thread_def
  pump_thread_def client_thread_def

section \<open>The claims\<close>

subsection \<open>The queue\<close>

text \<open>
  C1, as the code has it. Capacity 2, one thread in \<open>addCar\<close>. After its
  \<open>empty.acquire()\<close> no thread is inside the critical section, and
  \<open>empty.availablePermits() + full.availablePermits()\<close> is 1, not 2. After its
  \<open>mutex.release()\<close> no thread is inside the critical section either, the FIFO holds
  one car and \<open>full.availablePermits()\<close> is 0.
\<close>

theorem slots_outside_critical_section:
  "SharedQueue_new 2 =
     Inr \<lparr>queue = [], empty = \<lparr>slots = 2\<rparr>, full = \<lparr>slots = 0\<rparr>, mutex = \<lparr>slots = 1\<rparr>\<rparr> \<and>
   (let s = exec [Run 0]
              \<lparr>sq = \<lparr>queue = [], empty = \<lparr>slots = 2\<rparr>, full = \<lparr>slots = 0\<rparr>, mutex = \<lparr>slots = 1\<rparr>\<rparr>,
                pumps = \<lparr>slots = 1\<rparr>, threads = [client_thread [AddCar car_a]], trace = []\<rparr>
    in no_thread_in_critical s \<and>
       sint (fst (availablePermits (empty (sq s)))) + sint (fst (availablePermits (full (sq s)))) = 1) \<and>
   (let s = exec [Run 0, Run 0, Run 0, Run 0]
              \<lparr>sq = \<lparr>queue = [], empty = \<lparr>slots = 2\<rparr>, full = \<lparr>slots = 0\<rparr>, mutex = \<lparr>slots = 1\<rparr>\<rparr>,
                pumps = \<lparr>slots = 1\<rparr>, threads = [client_thread [AddCar car_a]], trace = []\<rparr>
    in no_thread_in_critical s \<and> length (queue (sq s)) = 1 \<and>
       sint (fst (availablePermits (full (sq s)))) = 0 \<and>
       sint (fst (availablePermits (empty (sq s)))) + sint (fst (availablePermits (full (sq s)))) = 1)"
  by (simp add: new_defs run_defs no_thread_in_critical_def availablePermits_def)

text \<open>
  C1, amended. A queue is constructed with capacity \<open>N\<close> and shared by any threads that
  have not started yet. Whatever the scheduler does, exceptions in \<open>pump_routine\<close>
  included, in every state reached: the length of the FIFO and the values of
  \<open>full.availablePermits()\<close> and \<open>empty.availablePermits()\<close> are between 0 and \<open>N\<close>;
  the permits of \<open>empty\<close> and \<open>full\<close>, the threads that hold a slot and the threads
  that an exception took away while they held one add up to \<open>N\<close>; the length of the
  FIFO is \<open>full.availablePermits()\<close> plus the cars in the FIFO that \<open>full\<close> does not
  count. When no call is in progress (no thread between the first \<open>acquire\<close> and the
  last \<open>release\<close> of an operation) and no exception has taken a thread out of one,
  \<open>empty.availablePermits() + full.availablePermits() = N\<close> and the length of the FIFO
  is \<open>full.availablePermits()\<close>.
\<close>

theorem capacity_invariant:
  assumes "SharedQueue_new capacity = Inr q" and "list_all fresh ths"
  shows "let s = exec sch \<lparr>sq = q, pumps = p, threads = ths, trace = tr\<rparr>;
             lost_slots = lost has_slot sch \<lparr>sq = q, pumps = p, threads = ths, trace = tr\<rparr>;
             lost_items = lost has_item sch \<lparr>sq = q, pumps = p, threads = ths, trace = tr\<rparr>;
             E = sint (fst (availablePermits (empty (sq s))));
             F = sint (fst (availablePermits (full (sq s))));
             L = int (length (queue (sq s)));
             N = sint capacity
         in 0 \<le> L \<and> L \<le> N \<and> 0 \<le> F \<and> F \<le> N \<and> 0 \<le> E \<and> E \<le> N \<and>
            E + F + num has_slot s + lost_slots = N \<and>
            L = F + num has_item s + lost_items \<and>
            (no_call_in_progress s \<and> lost_slots = 0 \<longrightarrow> E + F = N \<and> L = F)"
proof -
  define s0 where "s0 = \<lparr>sq = q, pumps = p, threads = ths, trace = tr\<rparr>"
  define s where "s = exec sch s0"
  have "queue_inv (sint capacity) (0 + lost has_slot sch s0) (0 + lost has_item sch s0)
          (0 + lost in_critical sch s0) s"
    unfolding s_def s0_def by (intro queue_inv_exec queue_inv_init assms)
  then have i: "queue_inv (sint capacity) (lost has_slot sch s0) (lost has_item sch s0)
          (lost in_critical sch s0) s"
    by simp
  have sub: "has_item x \<Longrightarrow> has_slot x" for x
    by (cases x) simp_all
  have le: "num has_item s \<le> num has_slot s"
    by (rule num_mono) (rule sub)
  have le': "lost has_item sch s0 \<le> lost has_slot sch s0"
    by (rule lost_mono) (rule sub)
  have nn: "0 \<le> num has_item s" "0 \<le> num has_slot s" "0 \<le> lost has_item sch s0"
    by (rule num_nonneg num_nonneg lost_nonneg)+
  show ?thesis
    unfolding Let_def s0_def [symmetric]
    unfolding s_def [symmetric]
    using i le le' nn
    by (auto simp: queue_inv_def Let_def availablePermits_def no_call_num)
qed

theorem capacity_invariant_witness:
  "SharedQueue_new 2 = Inr \<lparr>queue = [], empty = \<lparr>slots = 2\<rparr>, full = \<lparr>slots = 0\<rparr>, mutex = \<lparr>slots = 1\<rparr>\<rparr> \<and>
   list_all fresh [client_thread [AddCar car_a, AddCar car_b], pump_thread 1] \<and>
   (let s = exec [Run 0, Run 0, Run 0, Run 0, Run 0, Run 1, Run 1, Run 0, Run 1, Run 1, Run 0, Run 1, Run 0, Run 0, Run 0]
         \<lparr>sq = \<lparr>queue = [], empty = \<lparr>slots = 2\<rparr>, full = \<lparr>slots = 0\<rparr>, mutex = \<lparr>slots = 1\<rparr>\<rparr>,
           pumps = \<lparr>slots = 1\<rparr>, threads = [client_thread [AddCar car_a, AddCar car_b], pump_thread 1], trace = []\<rparr>
    in no_call_in_progress s \<and>
       queue (sq s) = [car_b] \<and> slots (empty (sq s)) = 1 \<and> slots (full (sq s)) = 1) \<and>
   lost has_slot [Run 0, Run 0, Run 0, Run 0, Run 0, Run 1, Run 1, Run 0, Run 1, Run 1, Run 0, Run 1, Run 0, Run 0, Run 0]
     \<lparr>sq = \<lparr>queue = [], empty = \<lparr>slots = 2\<rparr>, full = \<lparr>slots = 0\<rparr>, mutex = \<lparr>slots = 1\<rparr>\<rparr>,
           pumps = \<lparr>slots = 1\<rparr>, threads = [client_thread [AddCar car_a, AddCar car_b], pump_thread 1], trace = []\<rparr> = 0 \<and>
   (let s = exec [Run 0, Run 0, Run 0, Run 0, Run 0, Run 1, Run 1, Raise 1, Run 1]
         \<lparr>sq = \<lparr>queue = [], empty = \<lparr>slots = 2\<rparr>, full = \<lparr>slots = 0\<rparr>, mutex = \<lparr>slots = 1\<rparr>\<rparr>,
           pumps = \<lparr>slots = 1\<rparr>, threads = [client_thread [AddCar car_a, AddCar car_b], pump_thread 1], trace = []\<rparr>
    in no_call_in_progress s \<and>
       queue (sq s) = [car_a] \<and> slots (empty (sq s)) = 1 \<and> slots (full (sq s)) = 0) \<and>
   lost has_slot [Run 0, Run 0, Run 0, Run 0, Run 0, Run 1, Run 1, Raise 1, Run 1]
     \<lparr>sq = \<lparr>queue = [], empty = \<lparr>slots = 2\<rparr>, full = \<lparr>slots = 0\<rparr>, mutex = \<lparr>slots = 1\<rparr>\<rparr>,
           pumps = \<lparr>slots = 1\<rparr>, threads = [client_thread [AddCar car_a, AddCar car_b], pump_thread 1], trace = []\<rparr> = 1 \<and>
   lost has_item [Run 0, Run 0, Run 0, Run 0, Run 0, Run 1, Run 1, Raise 1, Run 1]
     \<lparr>sq = \<lparr>queue = [], empty = \<lparr>slots = 2\<rparr>, full = \<lparr>slots = 0\<rparr>, mutex = \<lparr>slots = 1\<rparr>\<rparr>,
           pumps = \<lparr>slots = 1\<rparr>, threads = [client_thread [AddCar car_a, AddCar car_b], pump_thread 1], trace = []\<rparr> = 1"
  using
    capacity_invariant [of 2 "\<lparr>queue = [], empty = \<lparr>slots = 2\<rparr>, full = \<lparr>slots = 0\<rparr>, mutex = \<lparr>slots = 1\<rparr>\<rparr>"
      "[client_thread [AddCar car_a, AddCar car_b], pump_thread 1]"
      "[Run 0, Run 0, Run 0, Run 0, Run 0, Run 1, Run 1, Run 0, Run 1, Run 1, Run 0, Run 1, Run 0, Run 0, Run 0]"
      "\<lparr>slots = 1\<rparr>" "[]"]
    capacity_invariant [of 2 "\<lparr>queue = [], empty = \<lparr>slots = 2\<rparr>, full = \<lparr>slots = 0\<rparr>, mutex = \<lparr>slots = 1\<rparr>\<rparr>"
      "[client_thread [AddCar car_a, AddCar car_b], pump_thread 1]"
      "[Run 0, Run 0, Run 0, Run 0, Run 0, Run 1, Run 1, Raise 1, Run 1]"
      "\<lparr>slots = 1\<rparr>" "[]"]
  by (simp add: new_defs run_defs fresh_def no_call_in_progress_def availablePermits_def num_def)

text \<open>
  C2. One producer passes \<open>cars\<close> to \<open>addCar\<close>, in this order, and one consumer calls
  \<open>removeCar\<close>. Whatever the scheduler does, the cars that \<open>removeCar\<close> has returned
  are, in the order of their return, a prefix of \<open>cars\<close>; together with the car in the
  consumer's hand, the FIFO, the car being added and the cars still to add they are
  \<open>cars\<close>, as long as no exception has taken the consumer out of its loop. No thread
  ever finds the FIFO empty in \<open>queue.front()\<close>: when the consumer is at the pop, the
  FIFO is not empty, and the call returns its front.
\<close>

theorem fifo_order:
  assumes "SharedQueue_new capacity = Inr q" and "fresh C" and "consumer C"
  shows "let s = exec sch \<lparr>sq = q, pumps = p, threads = [client_thread (map AddCar cars), C], trace = tr\<rparr>;
             got = returned (threads s ! 1)
         in prefix got cars \<and>
            (gone (threads s ! 1) \<or>
             got @ in_hand (pc (threads s ! 1)) @ queue (sq s) @
               pending (pc (threads s ! 0)) @ added (todo (threads s ! 0)) = cars) \<and>
            pc (threads s ! 0) \<noteq> Fault \<and> pc (threads s ! 1) \<noteq> Fault \<and>
            (\<forall>pumpId. pc (threads s ! 1) = RemCritical pumpId \<longrightarrow>
               queue (sq s) \<noteq> [] \<and>
               returned (threads (exec [Run 1, Run 1, Run 1] s) ! 1) = got @ [hd (queue (sq s))])"
proof -
  define s0 where "s0 = \<lparr>sq = q, pumps = p, threads = [client_thread (map AddCar cars), C], trace = tr\<rparr>"
  define s where "s = exec sch s0"
  have f0: "fifo_inv cars s0"
    unfolding s0_def by (rule fifo_init [OF assms])
  have "list_all fresh [client_thread (map AddCar cars), C]"
    using assms(2) by simp
  then have q0: "queue_inv (sint capacity) 0 0 0 s0"
    unfolding s0_def by (rule queue_inv_init [OF assms(1)])
  have "\<not> gone (threads s0 ! 1)"
    using assms(2) by (simp add: s0_def fresh_not_gone)
  with f0 q0 have "order_inv cars (sint capacity) s0"
    by (simp add: order_inv_def)
  then have o: "order_inv cars (sint capacity) s"
    unfolding s_def by (rule order_inv_exec)
  have len: "length (threads s) = 2"
    by (simp add: s_def s0_def)
  have pre: "prefix (returned (threads s ! 1)) cars"
    using o by (cases "gone (threads s ! 1)") (auto simp: order_inv_def fifo_inv_def)
  have eq: "gone (threads s ! 1) \<or>
      returned (threads s ! 1) @ in_hand (pc (threads s ! 1)) @ queue (sq s) @
        pending (pc (threads s ! 0)) @ added (todo (threads s ! 0)) = cars"
    using o by (cases "gone (threads s ! 1)") (auto simp: order_inv_def fifo_inv_def)
  have prod: "producer (threads s ! 0)"
    using o by (cases "gone (threads s ! 1)") (auto simp: order_inv_def fifo_inv_def)
  then have nf0: "pc (threads s ! 0) \<noteq> Fault"
    by (auto simp: producer_def)
  have alive: "queue_inv (sint capacity) 0 0 0 s" if "\<not> gone (threads s ! 1)"
    using o that by (simp add: order_inv_def)
  have nf1: "pc (threads s ! 1) \<noteq> Fault"
  proof (cases "gone (threads s ! 1)")
    case True
    then show ?thesis by (auto simp: gone_def)
  next
    case False
    then have "num is_fault s = 0"
      using alive by (simp add: queue_inv_def Let_def)
    then show ?thesis
      using len no_fault_nth [of s 1] by simp
  qed
  have front: "queue (sq s) \<noteq> [] \<and>
      returned (threads (exec [Run 1, Run 1, Run 1] s) ! 1) =
        returned (threads s ! 1) @ [hd (queue (sq s))]"
    if at: "pc (threads s ! 1) = RemCritical pumpId" for pumpId
  proof -
    have "\<not> gone (threads s ! 1)"
      using at by (simp add: gone_def)
    then have i: "queue_inv (sint capacity) 0 0 0 s"
      by (rule alive)
    have "1 \<le> num has_item s"
      using at len by (intro num_pos [of 1]) simp_all
    then have ne: "queue (sq s) \<noteq> []"
      using i by (auto simp: queue_inv_def Let_def)
    then obtain c cs where q: "queue (sq s) = c # cs"
      by (cases "queue (sq s)") auto
    obtain P C' where ths: "threads s = [P, C']"
      using len by (cases "threads s"; cases "tl (threads s)") auto
    show ?thesis
      using at q ths
      by (simp add: goto_def emit_def return_car_def next_call_def Let_def)
  qed
  show ?thesis
    unfolding Let_def s0_def [symmetric]
    unfolding s_def [symmetric]
    using pre eq nf0 nf1 front by blast
qed

theorem fifo_order_witness:
  "SharedQueue_new 1 = Inr \<lparr>queue = [], empty = \<lparr>slots = 1\<rparr>, full = \<lparr>slots = 0\<rparr>, mutex = \<lparr>slots = 1\<rparr>\<rparr> \<and>
   fresh (client_thread [RemoveCar 7, RemoveCar 7, RemoveCar 7]) \<and>
   consumer (client_thread [RemoveCar 7, RemoveCar 7, RemoveCar 7]) \<and>
   (let s = exec [Run 0, Run 0, Run 0, Run 0, Run 0, Run 1, Run 1, Run 1, Run 1, Run 1,
                  Run 0, Run 0, Run 0, Run 0, Run 0, Run 1, Run 1, Run 1, Run 1, Run 1,
                  Run 0, Run 0, Run 0, Run 0, Run 0, Run 1, Run 1, Run 1, Run 1, Run 1]
              \<lparr>sq = \<lparr>queue = [], empty = \<lparr>slots = 1\<rparr>, full = \<lparr>slots = 0\<rparr>, mutex = \<lparr>slots = 1\<rparr>\<rparr>,
                pumps = \<lparr>slots = 1\<rparr>,
                threads = [client_thread (map AddCar [car_a, car_b, car_c]),
                           client_thread [RemoveCar 7, RemoveCar 7, RemoveCar 7]],
                trace = []\<rparr>
    in returned (threads s ! 1) = [car_a, car_b, car_c] \<and> prefix (returned (threads s ! 1)) [car_a, car_b, car_c])"
  using fifo_order [of 1 "\<lparr>queue = [], empty = \<lparr>slots = 1\<rparr>, full = \<lparr>slots = 0\<rparr>, mutex = \<lparr>slots = 1\<rparr>\<rparr>"
      "client_thread [RemoveCar 7, RemoveCar 7, RemoveCar 7]"
      "[Run 0, Run 0, Run 0, Run 0, Run 0, Run 1, Run 1, Run 1, Run 1, Run 1,
                  Run 0, Run 0, Run 0, Run 0, Run 0, Run 1, Run 1, Run 1, Run 1, Run 1,
                  Run 0, Run 0, Run 0, Run 0, Run 0, Run 1, Run 1, Run 1, Run 1, Run 1]"
      "\<lparr>slots = 1\<rparr>" "[car_a, car_b, car_c]" "[]"]
  by (simp add: SharedQueue_new_def Semaphore_new_def client_thread_def fresh_def consumer_def run_defs)



text \<open>
  C9, as the code has it. Capacity 2, two threads in \<open>addCar\<close>. Thread 0 completes its
  operation (its last step is \<open>full.release()\<close>) while thread 1 is inside the critical
  section: right after the completed \<open>addCar\<close> the count of \<open>mutex\<close> is 0.
\<close>

theorem mutex_zero_after_addCar:
  "SharedQueue_new 2 =
     Inr \<lparr>queue = [], empty = \<lparr>slots = 2\<rparr>, full = \<lparr>slots = 0\<rparr>, mutex = \<lparr>slots = 1\<rparr>\<rparr> \<and>
   (let s = exec [Run 0, Run 0, Run 0, Run 0, Run 1, Run 1, Run 0]
              \<lparr>sq = \<lparr>queue = [], empty = \<lparr>slots = 2\<rparr>, full = \<lparr>slots = 0\<rparr>, mutex = \<lparr>slots = 1\<rparr>\<rparr>,
                pumps = \<lparr>slots = 1\<rparr>,
                threads = [client_thread [AddCar car_a], client_thread [AddCar car_b]], trace = []\<rparr>
    in pc (threads s ! 0) = Finished \<and> last (trace s) = (0, Release FullSem) \<and>
       pc (threads s ! 1) = AddCritical car_b \<and>
       sint (fst (availablePermits (mutex (sq s)))) = 0)"
  by (simp add: new_defs run_defs availablePermits_def)

text \<open>
  C9, amended. \<open>mutex\<close> is created with 1 permit. In every state reached, exceptions in
  \<open>pump_routine\<close> included, its count is 0 or 1 and never exceeds 1: it is 1 minus the
  threads between their \<open>mutex.acquire()\<close> and their \<open>mutex.release()\<close>, those that
  an exception took out of the critical section included. So it is exactly 1 whenever no
  thread is inside the critical section and none was taken out of it, and 0 while a
  thread is inside, also right after another thread has completed an operation. Without
  such an exception, every thread has made as many calls of \<open>mutex.release()\<close> as of
  \<open>mutex.acquire()\<close>, plus one while it is inside the critical section: each operation
  has one of each.
\<close>

theorem mutex_binary:
  assumes "SharedQueue_new capacity = Inr q" and "list_all fresh ths"
  shows "slots (mutex q) = 1 \<and>
    (let s = exec sch \<lparr>sq = q, pumps = p, threads = ths, trace = []\<rparr>;
         lost_holders = lost in_critical sch \<lparr>sq = q, pumps = p, threads = ths, trace = []\<rparr>;
         M = sint (fst (availablePermits (mutex (sq s))))
     in 0 \<le> M \<and> M \<le> 1 \<and>
        M + num in_critical s + lost_holders = 1 \<and>
        (no_thread_in_critical s \<and> lost_holders = 0 \<longrightarrow> M = 1) \<and>
        (lost_holders = 0 \<longrightarrow>
           (\<forall>t < length ths.
              count_list (trace s) (t, Acquire MutexSem) =
                count_list (trace s) (t, Release MutexSem) +
                (if in_critical (pc (threads s ! t)) then 1 else 0))))"
proof -
  define s0 where "s0 = \<lparr>sq = q, pumps = p, threads = ths, trace = []\<rparr>"
  define s where "s = exec sch s0"
  have "queue_inv (sint capacity) (0 + lost has_slot sch s0) (0 + lost has_item sch s0)
          (0 + lost in_critical sch s0) s"
    unfolding s_def s0_def by (intro queue_inv_exec queue_inv_init assms)
  then have i: "queue_inv (sint capacity) (lost has_slot sch s0) (lost has_item sch s0)
          (lost in_critical sch s0) s"
    by simp
  have m: "slots (mutex q) = 1"
    using assms(1) by (auto simp: SharedQueue_new_def Semaphore_new_def split: sum.splits if_splits)
  have len: "length (threads s) = length ths"
    by (simp add: s_def s0_def)
  have pair: "count_list (trace s) (t, Acquire MutexSem) =
      count_list (trace s) (t, Release MutexSem) +
      (if in_critical (pc (threads s ! t)) then 1 else 0)"
    if t: "t < length ths" and z: "lost in_critical sch s0 = 0" for t
  proof -
    have "fresh (ths ! t)"
      using assms(2) t by (simp add: list_all_length)
    then have "mutex_inv t s0"
      using t by (simp add: mutex_inv_def s0_def fresh_mutex_free)
    then have mi: "mutex_inv t s"
      unfolding s_def using z by (rule mutex_inv_exec)
    have "num is_fault s = 0"
      using i by (simp add: queue_inv_def Let_def)
    then have "pc (threads s ! t) \<noteq> Fault"
      using t len by (intro no_fault_nth) simp_all
    then have "mutex_held (pc (threads s ! t)) = in_critical (pc (threads s ! t))"
      by (cases "pc (threads s ! t)") simp_all
    with mi show ?thesis by (simp add: mutex_inv_def)
  qed
  have nn: "0 \<le> num in_critical s" by (rule num_nonneg)
  show ?thesis
    unfolding Let_def s0_def [symmetric]
    unfolding s_def [symmetric]
    using i m pair nn
    by (auto simp: queue_inv_def Let_def availablePermits_def no_critical_num)
qed

theorem mutex_binary_witness:
  "SharedQueue_new 3 = Inr \<lparr>queue = [], empty = \<lparr>slots = 3\<rparr>, full = \<lparr>slots = 0\<rparr>, mutex = \<lparr>slots = 1\<rparr>\<rparr> \<and>
   list_all fresh [car_thread ''Car 1'' 1, car_thread ''Car 2'' 2, pump_thread 1] \<and>
   (let s = exec [Run 0, Run 1, Run 0, Run 1, Run 0, Run 1, Run 1, Run 0, Run 0, Run 0, Run 1, Run 1,
          Run 1, Run 1, Run 2, Run 2, Run 2, Run 2, Run 2]
         \<lparr>sq = \<lparr>queue = [], empty = \<lparr>slots = 3\<rparr>, full = \<lparr>slots = 0\<rparr>, mutex = \<lparr>slots = 1\<rparr>\<rparr>,
           pumps = \<lparr>slots = 1\<rparr>, threads = [car_thread ''Car 1'' 1, car_thread ''Car 2'' 2, pump_thread 1], trace = []\<rparr>
    in no_thread_in_critical s \<and>
       slots (mutex (sq s)) = 1 \<and> queue (sq s) = [car_b] \<and>
       returned (threads s ! 2) = [car_a] \<and>
       (2::nat) < length [car_thread ''Car 1'' 1, car_thread ''Car 2'' 2, pump_thread 1] \<and>
       count_list (trace s) (2, Acquire MutexSem) = 1 \<and>
       count_list (trace s) (2, Release MutexSem) = 1) \<and>
   lost in_critical [Run 0, Run 1, Run 0, Run 1, Run 0, Run 1, Run 1, Run 0, Run 0, Run 0, Run 1, Run 1,
          Run 1, Run 1, Run 2, Run 2, Run 2, Run 2, Run 2]
     \<lparr>sq = \<lparr>queue = [], empty = \<lparr>slots = 3\<rparr>, full = \<lparr>slots = 0\<rparr>, mutex = \<lparr>slots = 1\<rparr>\<rparr>,
           pumps = \<lparr>slots = 1\<rparr>, threads = [car_thread ''Car 1'' 1, car_thread ''Car 2'' 2, pump_thread 1], trace = []\<rparr> = 0 \<and>
   (let s = exec [Run 0, Run 0, Run 0, Run 0, Run 0, Run 0, Run 2, Run 2, Raise 2, Run 2]
         \<lparr>sq = \<lparr>queue = [], empty = \<lparr>slots = 3\<rparr>, full = \<lparr>slots = 0\<rparr>, mutex = \<lparr>slots = 1\<rparr>\<rparr>,
           pumps = \<lparr>slots = 1\<rparr>, threads = [car_thread ''Car 1'' 1, car_thread ''Car 2'' 2, pump_thread 1], trace = []\<rparr>
    in no_thread_in_critical s \<and> slots (mutex (sq s)) = 0 \<and>
       pc (threads s ! 2) = Finished) \<and>
   lost in_critical [Run 0, Run 0, Run 0, Run 0, Run 0, Run 0, Run 2, Run 2, Raise 2, Run 2]
     \<lparr>sq = \<lparr>queue = [], empty = \<lparr>slots = 3\<rparr>, full = \<lparr>slots = 0\<rparr>, mutex = \<lparr>slots = 1\<rparr>\<rparr>,
           pumps = \<lparr>slots = 1\<rparr>, threads = [car_thread ''Car 1'' 1, car_thread ''Car 2'' 2, pump_thread 1], trace = []\<rparr> = 1"
  using
    mutex_binary [of 3 "\<lparr>queue = [], empty = \<lparr>slots = 3\<rparr>, full = \<lparr>slots = 0\<rparr>, mutex = \<lparr>slots = 1\<rparr>\<rparr>"
      "[car_thread ''Car 1'' 1, car_thread ''Car 2'' 2, pump_thread 1]"
      "[Run 0, Run 1, Run 0, Run 1, Run 0, Run 1, Run 1, Run 0, Run 0, Run 0, Run 1, Run 1,
          Run 1, Run 1, Run 2, Run 2, Run 2, Run 2, Run 2]"
      "\<lparr>slots = 1\<rparr>"]
    mutex_binary [of 3 "\<lparr>queue = [], empty = \<lparr>slots = 3\<rparr>, full = \<lparr>slots = 0\<rparr>, mutex = \<lparr>slots = 1\<rparr>\<rparr>"
      "[car_thread ''Car 1'' 1, car_thread ''Car 2'' 2, pump_thread 1]"
      "[Run 0, Run 0, Run 0, Run 0, Run 0, Run 0, Run 2, Run 2, Raise 2, Run 2]"
      "\<lparr>slots = 1\<rparr>"]
  by (simp add: new_defs run_defs fresh_def no_thread_in_critical_def availablePermits_def num_def
      car_a_def car_b_def)

text \<open>
  C4, as the code has it. \<open>SharedQueue(0)\<close> is constructed: the constructor has no check
  of its own, and \<open>Semaphore(0)\<close> is valid.
\<close>

theorem SharedQueue_new_zero_succeeds:
  "SharedQueue_new 0 =
     Inr \<lparr>queue = [], empty = \<lparr>slots = 0\<rparr>, full = \<lparr>slots = 0\<rparr>, mutex = \<lparr>slots = 1\<rparr>\<rparr>"
  by (simp add: SharedQueue_new_def Semaphore_new_def word_sless_alt)

text \<open>
  C4, amended. The construction of the queue fails, with \<open>std::invalid_argument\<close> from
  the constructor of \<open>empty\<close>, exactly when \<open>capacity < 0\<close>; for every \<open>capacity \<ge> 0\<close>,
  0 included, it succeeds, with \<open>empty\<close> at \<open>capacity\<close>, \<open>full\<close> at 0, \<open>mutex\<close> at 1 and
  no car queued. (That the capacity is at least 1 is checked by the input loop of
  \<open>main\<close>, lines 168-171, before the queue is constructed.)
\<close>

theorem SharedQueue_new_fails_iff_negative:
  "(sint capacity < 0 \<longrightarrow> SharedQueue_new capacity = Inl invalid_argument) \<and>
   (0 \<le> sint capacity \<longrightarrow>
      SharedQueue_new capacity =
        Inr \<lparr>queue = [], empty = \<lparr>slots = capacity\<rparr>, full = \<lparr>slots = 0\<rparr>,
             mutex = \<lparr>slots = 1\<rparr>\<rparr>)"
  by (simp add: SharedQueue_new_def Semaphore_new_def word_sless_alt)

theorem SharedQueue_new_fails_iff_negative_witness:
  "sint (- 1 :: cint) < 0 \<and> SharedQueue_new (- 1) = Inl invalid_argument \<and>
   0 \<le> sint (10 :: cint) \<and>
   SharedQueue_new 10 =
     Inr \<lparr>queue = [], empty = \<lparr>slots = 10\<rparr>, full = \<lparr>slots = 0\<rparr>, mutex = \<lparr>slots = 1\<rparr>\<rparr>"
  using SharedQueue_new_fails_iff_negative [of "- 1"] SharedQueue_new_fails_iff_negative [of 10]
  by simp

text \<open>
  C10. \<open>availablePermits\<close> and \<open>getWaitingCarCount\<close> leave the semaphore and the queue
  (its FIFO and its three semaphores) as they were, and \<open>getWaitingCarCount\<close> returns
  what \<open>full.availablePermits()\<close> returns.
\<close>

theorem observers_pure:
  "snd (availablePermits s) = s \<and>
   fst (availablePermits s) = slots s \<and>
   snd (getWaitingCarCount q) = q \<and>
   fst (getWaitingCarCount q) = fst (availablePermits (full q))"
  by (simp add: availablePermits_def getWaitingCarCount_def)

subsection \<open>The pumps\<close>

text \<open>
  C5, as the code has it. One pump, one car: the pump takes the car and a bay, the
  service raises, the handler prints and \<open>pump_routine\<close> returns. The pump has acquired
  a bay once and released none; the bay stays taken, and the thread makes no more steps.
\<close>

theorem pump_raise_keeps_bay:
  "station_new 1 1 [pump_thread 1, car_thread ''Car 1'' 1] =
     Inr \<lparr>sq = \<lparr>queue = [], empty = \<lparr>slots = 1\<rparr>, full = \<lparr>slots = 0\<rparr>, mutex = \<lparr>slots = 1\<rparr>\<rparr>,
          pumps = \<lparr>slots = 1\<rparr>, threads = [pump_thread 1, car_thread ''Car 1'' 1], trace = []\<rparr> \<and>
   (let s = exec [Run 1, Run 1, Run 1, Run 1, Run 1, Run 1,
                  Run 0, Run 0, Run 0, Run 0, Run 0, Run 0, Run 0, Raise 0, Run 0]
              \<lparr>sq = \<lparr>queue = [], empty = \<lparr>slots = 1\<rparr>, full = \<lparr>slots = 0\<rparr>, mutex = \<lparr>slots = 1\<rparr>\<rparr>,
                pumps = \<lparr>slots = 1\<rparr>, threads = [pump_thread 1, car_thread ''Car 1'' 1], trace = []\<rparr>
    in pc (threads s ! 0) = Finished \<and>
       count_list (trace s) (0, Acquire PumpsSem) = 1 \<and>
       count_list (trace s) (0, Release PumpsSem) = 0 \<and>
       slots (pumps s) = 0 \<and>
       fire (Run 0) s = s)"
  by (simp add: new_defs run_defs)

text \<open>
  C5, amended. In the loop, a pump has one \<open>pumps.acquire()\<close> more than
  \<open>pumps.release()\<close> exactly while it is between the two calls: in every iteration
  whose service ends normally the release is called once for the acquire of the
  iteration, before the pump goes back to \<open>removeCar\<close>, where its releases are as many
  as its acquires. When a statement between \<open>pumps.acquire()\<close> and \<open>pumps.release()\<close>
  raises, control leaves the loop for the handler, which prints and returns without a
  release: from then on, whatever the schedule, the pump has one acquire more than
  releases. (When another statement of the loop raises, it leaves with as many releases
  as acquires.)
\<close>

theorem pump_bay_balance:
  assumes "station_new queueSize pumpCount ths = Inr s0"
    and "t < length ths" and "ths ! t = pump_thread pumpId"
  shows "(let s = exec sch s0;
              p = pc (threads s ! t);
              acquired = count_list (trace s) (t, Acquire PumpsSem);
              released = count_list (trace s) (t, Release PumpsSem)
          in released \<le> acquired \<and> acquired \<le> released + 1 \<and>
             (\<not> left_loop p \<longrightarrow> acquired = released + (if bay_held p then 1 else 0)) \<and>
             (in_remove p \<longrightarrow> acquired = released)) \<and>
         (try_pc (pc (threads (exec sch s0) ! t)) \<noteq> None \<longrightarrow>
            (let s' = exec (sch @ Raise t # sch') s0
             in left_loop (pc (threads s' ! t)) \<and>
                count_list (trace s') (t, Acquire PumpsSem) =
                  count_list (trace s') (t, Release PumpsSem) +
                  (if bay_held (pc (threads (exec sch s0) ! t)) then 1 else 0)))"
proof -
  have "threads s0 = ths" "trace s0 = []"
    using assms(1) by (auto simp: station_new_def split: sum.splits)
  then have "bay_inv t s0"
    using assms(2,3) by (simp add: bay_inv_def pump_thread_def)
  then have b: "bay_inv t (exec sch s0)"
    by (rule bay_inv_exec)
  have first: "let s = exec sch s0;
              p = pc (threads s ! t);
              acquired = count_list (trace s) (t, Acquire PumpsSem);
              released = count_list (trace s) (t, Release PumpsSem)
          in released \<le> acquired \<and> acquired \<le> released + 1 \<and>
             (\<not> left_loop p \<longrightarrow> acquired = released + (if bay_held p then 1 else 0)) \<and>
             (in_remove p \<longrightarrow> acquired = released)"
    using b by (cases "pc (threads (exec sch s0) ! t)") (simp_all add: bay_inv_def Let_def)
  have second: "left_inv t (if bay_held (pc (threads (exec sch s0) ! t)) then 1 else 0)
      (exec (sch @ Raise t # sch') s0)"
    if "try_pc (pc (threads (exec sch s0) ! t)) \<noteq> None"
    using bay_inv_raise_left [OF b that] by (simp add: exec_append left_inv_exec)
  show ?thesis
    using first second by (simp add: left_inv_def Let_def)
qed

theorem pump_bay_balance_witness:
  "station_new 1 1 [pump_thread 1, car_thread ''Car 1'' 1] =
     Inr \<lparr>sq = \<lparr>queue = [], empty = \<lparr>slots = 1\<rparr>, full = \<lparr>slots = 0\<rparr>, mutex = \<lparr>slots = 1\<rparr>\<rparr>,
          pumps = \<lparr>slots = 1\<rparr>, threads = [pump_thread 1, car_thread ''Car 1'' 1], trace = []\<rparr> \<and>
   (0::nat) < length [pump_thread 1, car_thread ''Car 1'' 1] \<and>
   [pump_thread 1, car_thread ''Car 1'' 1] ! 0 = pump_thread 1 \<and>
   (let s = exec [Run 1, Run 1, Run 1, Run 1, Run 1, Run 1,
                  Run 0, Run 0, Run 0, Run 0, Run 0, Run 0, Run 0, Run 0, Run 0, Run 0]
              \<lparr>sq = \<lparr>queue = [], empty = \<lparr>slots = 1\<rparr>, full = \<lparr>slots = 0\<rparr>, mutex = \<lparr>slots = 1\<rparr>\<rparr>,
                pumps = \<lparr>slots = 1\<rparr>, threads = [pump_thread 1, car_thread ''Car 1'' 1], trace = []\<rparr>
    in pc (threads s ! 0) = RemAcqFull 1 \<and> in_remove (pc (threads s ! 0)) \<and>
       \<not> left_loop (pc (threads s ! 0)) \<and>
       count_list (trace s) (0, Acquire PumpsSem) = 1 \<and>
       count_list (trace s) (0, Release PumpsSem) = 1 \<and>
       slots (pumps s) = 1) \<and>
   (let s = exec [Run 1, Run 1, Run 1, Run 1, Run 1, Run 1,
                  Run 0, Run 0, Run 0, Run 0, Run 0, Run 0, Run 0]
              \<lparr>sq = \<lparr>queue = [], empty = \<lparr>slots = 1\<rparr>, full = \<lparr>slots = 0\<rparr>, mutex = \<lparr>slots = 1\<rparr>\<rparr>,
                pumps = \<lparr>slots = 1\<rparr>, threads = [pump_thread 1, car_thread ''Car 1'' 1], trace = []\<rparr>
    in pc (threads s ! 0) = PumpSleep 1 \<lparr>carName = ''Car 1'', carId = 1\<rparr> \<and>
       try_pc (pc (threads s ! 0)) \<noteq> None \<and> bay_held (pc (threads s ! 0))) \<and>
   (let s' = exec ([Run 1, Run 1, Run 1, Run 1, Run 1, Run 1,
                    Run 0, Run 0, Run 0, Run 0, Run 0, Run 0, Run 0] @ Raise 0 # [Run 0, Run 0])
              \<lparr>sq = \<lparr>queue = [], empty = \<lparr>slots = 1\<rparr>, full = \<lparr>slots = 0\<rparr>, mutex = \<lparr>slots = 1\<rparr>\<rparr>,
                pumps = \<lparr>slots = 1\<rparr>, threads = [pump_thread 1, car_thread ''Car 1'' 1], trace = []\<rparr>
    in pc (threads s' ! 0) = Finished \<and>
       count_list (trace s') (0, Acquire PumpsSem) = 1 \<and>
       count_list (trace s') (0, Release PumpsSem) = 0)"
  using
    pump_bay_balance [of 1 1 "[pump_thread 1, car_thread ''Car 1'' 1]"
      "\<lparr>sq = \<lparr>queue = [], empty = \<lparr>slots = 1\<rparr>, full = \<lparr>slots = 0\<rparr>, mutex = \<lparr>slots = 1\<rparr>\<rparr>,
          pumps = \<lparr>slots = 1\<rparr>, threads = [pump_thread 1, car_thread ''Car 1'' 1], trace = []\<rparr>"
      0 1
      "[Run 1, Run 1, Run 1, Run 1, Run 1, Run 1,
                  Run 0, Run 0, Run 0, Run 0, Run 0, Run 0, Run 0, Run 0, Run 0, Run 0]" "[]"]
    pump_bay_balance [of 1 1 "[pump_thread 1, car_thread ''Car 1'' 1]"
      "\<lparr>sq = \<lparr>queue = [], empty = \<lparr>slots = 1\<rparr>, full = \<lparr>slots = 0\<rparr>, mutex = \<lparr>slots = 1\<rparr>\<rparr>,
          pumps = \<lparr>slots = 1\<rparr>, threads = [pump_thread 1, car_thread ''Car 1'' 1], trace = []\<rparr>"
      0 1
      "[Run 1, Run 1, Run 1, Run 1, Run 1, Run 1,
                  Run 0, Run 0, Run 0, Run 0, Run 0, Run 0, Run 0]" "[Run 0, Run 0]"]
  by (simp add: new_defs run_defs)

text \<open>
  C6, on the code. Capacity 1, one pump, two cars. Car 1 is in service when Car 2 is
  queued; both car threads have returned (they are joined). The pump ends the service of
  Car 1, releases the bay and, in \<open>removeCar\<close>, acquires \<open>full\<close>. In this state the test
  of the drain loop holds (no car counted by \<open>full\<close>, all bays free), while Car 2 is
  still in the FIFO and has not been serviced. Five steps later the pump has taken a bay
  for Car 2 and the test is false.
\<close>

theorem drain_sample_not_final:
  "station_new 1 1 [pump_thread 1, car_thread ''Car 1'' 1, car_thread ''Car 2'' 2] =
     Inr \<lparr>sq = \<lparr>queue = [], empty = \<lparr>slots = 1\<rparr>, full = \<lparr>slots = 0\<rparr>, mutex = \<lparr>slots = 1\<rparr>\<rparr>,
          pumps = \<lparr>slots = 1\<rparr>,
          threads = [pump_thread 1, car_thread ''Car 1'' 1, car_thread ''Car 2'' 2], trace = []\<rparr> \<and>
   (let s1 = exec [Run 1, Run 1, Run 1, Run 1, Run 1, Run 1,
                   Run 0, Run 0, Run 0, Run 0, Run 0, Run 0, Run 0,
                   Run 2, Run 2, Run 2, Run 2, Run 2, Run 2,
                   Run 0, Run 0, Run 0, Run 0]
              \<lparr>sq = \<lparr>queue = [], empty = \<lparr>slots = 1\<rparr>, full = \<lparr>slots = 0\<rparr>, mutex = \<lparr>slots = 1\<rparr>\<rparr>,
                pumps = \<lparr>slots = 1\<rparr>,
                threads = [pump_thread 1, car_thread ''Car 1'' 1, car_thread ''Car 2'' 2], trace = []\<rparr>;
        s2 = exec [Run 0, Run 0, Run 0, Run 0, Run 0] s1
    in pc (threads s1 ! 1) = Finished \<and> pc (threads s1 ! 2) = Finished \<and>
       drained 1 s1 \<and>
       queue (sq s1) = [car_b] \<and>
       (0, Print (FinishesService 1 ''Car 2'')) \<notin> set (trace s1) \<and>
       \<not> drained 1 s2 \<and>
       pc (threads s2 ! 0) = PumpBegin 1 car_b \<and>
       slots (pumps s2) = 0)"
  by (simp add: new_defs run_defs drained_def getWaitingCarCount_def availablePermits_def car_b_def)

subsection \<open>The semaphore\<close>

text \<open>
  C7, as the code has it. \<open>Semaphore(2147483647)\<close> is valid, and one \<open>release\<close> takes
  its count to \<open>- 2147483648\<close>: \<open>slots++\<close> has no room above \<open>INT_MAX\<close>.
\<close>

theorem release_at_INT_MAX:
  "Semaphore_new INT_MAX = Inr \<lparr>slots = INT_MAX\<rparr> \<and>
   sint (slots (sem_run [ReleaseCall] \<lparr>slots = INT_MAX\<rparr>)) = - 2147483648 \<and>
   sint (slots (release \<lparr>slots = INT_MAX\<rparr>)) \<noteq> sint (slots \<lparr>slots = INT_MAX\<rparr>) + 1"
  by (simp add: Semaphore_new_def release_def INT_MAX_def word_sless_alt)

text \<open>
  C7, amended. For a validly constructed semaphore and every sequence of \<open>acquire\<close> and
  \<open>release\<close> calls in which no \<open>release\<close> starts from a count of \<open>INT_MAX\<close>, the count
  is never negative. An \<open>acquire\<close> returns only from an evaluation of the wait predicate
  at a count above 0, which it decrements by 1; at a count of 0 or less it waits. A
  \<open>release\<close> from a count other than \<open>INT_MAX\<close> increments it by exactly 1.
\<close>

theorem semaphore_permits:
  assumes "Semaphore_new n = Inr s0" and "below_max cs s0"
  shows "0 \<le> sint (slots (sem_run cs s0)) \<and>
    (\<forall>s s'. acquire s = Some s' \<longrightarrow> 0 < sint (slots s) \<and> sint (slots s') = sint (slots s) - 1) \<and>
    (\<forall>s. (acquire s = None) = (sint (slots s) \<le> 0)) \<and>
    (\<forall>s. slots s \<noteq> INT_MAX \<longrightarrow> sint (slots (release s)) = sint (slots s) + 1)"
proof -
  from assms(1) have "0 \<le> sint (slots s0)"
    by (auto simp: Semaphore_new_def word_sless_alt split: if_splits)
  from this assms(2) have "0 \<le> sint (slots (sem_run cs s0))"
    by (rule sem_run_nonneg)
  then show ?thesis
    by (auto simp: acquire_None neq_INT_MAX release_sint dest: acquire_Some)
qed

theorem semaphore_permits_witness:
  "Semaphore_new 1 = Inr \<lparr>slots = 1\<rparr> \<and>
   below_max [AcquireCall, AcquireCall, ReleaseCall, ReleaseCall, AcquireCall] \<lparr>slots = 1\<rparr> \<and>
   sem_run [AcquireCall, AcquireCall, ReleaseCall, ReleaseCall, AcquireCall] \<lparr>slots = 1\<rparr> = \<lparr>slots = 1\<rparr> \<and>
   0 \<le> sint (slots (sem_run [AcquireCall, AcquireCall, ReleaseCall, ReleaseCall, AcquireCall] \<lparr>slots = 1\<rparr>))"
  using semaphore_permits [of 1 "\<lparr>slots = 1\<rparr>" "[AcquireCall, AcquireCall, ReleaseCall, ReleaseCall, AcquireCall]"]
  by (simp add: Semaphore_new_def acquire_def release_def INT_MAX_def word_sless_alt)

text \<open>
  C8. The construction of a semaphore fails with \<open>std::invalid_argument\<close> when the
  initial count is negative and succeeds, with that count, otherwise. \<open>acquire\<close> and
  \<open>release\<close> have no failure: \<open>acquire\<close> returns after \<open>slots--\<close> when the count is
  above 0 and waits otherwise, \<open>release\<close> always returns after \<open>slots++\<close>.
\<close>

theorem Semaphore_new_and_calls:
  "(sint n < 0 \<longrightarrow> Semaphore_new n = Inl invalid_argument) \<and>
   (0 \<le> sint n \<longrightarrow> Semaphore_new n = Inr \<lparr>slots = n\<rparr>) \<and>
   (0 < sint (slots s) \<longrightarrow> acquire s = Some (s\<lparr>slots := slots s - 1\<rparr>)) \<and>
   (sint (slots s) \<le> 0 \<longrightarrow> acquire s = None) \<and>
   release s = s\<lparr>slots := slots s + 1\<rparr>"
  by (simp add: Semaphore_new_def acquire_def release_def word_sless_alt)

theorem Semaphore_new_and_calls_witness:
  "sint (- 1 :: cint) < 0 \<and> Semaphore_new (- 1) = Inl invalid_argument \<and>
   0 \<le> sint (3 :: cint) \<and> Semaphore_new 3 = Inr \<lparr>slots = 3\<rparr> \<and>
   0 < sint (slots \<lparr>slots = 3\<rparr>) \<and> acquire \<lparr>slots = 3\<rparr> = Some \<lparr>slots = 2\<rparr> \<and>
   sint (slots \<lparr>slots = 0\<rparr>) \<le> 0 \<and> acquire \<lparr>slots = 0\<rparr> = None \<and>
   release \<lparr>slots = 3\<rparr> = \<lparr>slots = 4\<rparr>"
  using Semaphore_new_and_calls [of "- 1" "\<lparr>slots = 3\<rparr>"] Semaphore_new_and_calls [of 3 "\<lparr>slots = 0\<rparr>"]
  by simp

end
